theory Spec2Isabelle
  imports Main "HOL-Library.Multiset"
begin

section \<open>Data model\<close>

text \<open>
  The small-world graph index of \<^verbatim>\<open>similarity_search/src/method/small_world_rand.cc\<close>.
  The template parameter \<^verbatim>\<open>dist_t\<close> is a linear order \<open>'d\<close> (the instance
  \<^verbatim>\<open>SmallWorldRand<int>\<close>; the floating-point instances agree with it as long as no
  distance is a NaN).  Sizes and internal ids are natural numbers (\<^verbatim>\<open>size_t\<close>, never
  near its limit), external object ids are integers; the data has fewer than \<open>2 ^ 31\<close>
  objects, so that the conversions between \<^verbatim>\<open>size_t\<close> and the 32-bit \<^verbatim>\<open>IdType\<close> change no
  value.
\<close>

datatype error =
    RuntimeError string
  | CheckFailed string
  | UndefinedBehaviour string

text \<open>
  \<open>RuntimeError m\<close> is \<^verbatim>\<open>throw runtime_error(m)\<close>; \<open>CheckFailed m\<close> is a failed
  \<^verbatim>\<open>CHECK_MSG(cond, m)\<close> (for a plain \<^verbatim>\<open>CHECK(cond)\<close> the text of the condition);
  \<open>UndefinedBehaviour\<close> marks what C++ leaves undefined (\<^verbatim>\<open>top()\<close> of an empty
  queue, a pointer to no node, \<^verbatim>\<open>operator->\<close> of an empty \<^verbatim>\<open>unique_ptr\<close>).
\<close>

record Object =
  obj_id :: int
  obj_data :: string

type_synonym ptr = nat

record MSWNode =
  node_data :: Object
  node_id :: nat
  friends :: "ptr list"

record 'd Space =
  IndexTimeDistance :: "Object \<Rightarrow> Object \<Rightarrow> 'd"
  ProxyDistance :: "Object \<Rightarrow> Object \<Rightarrow> 'd"

datatype AlgoType = kOld | kV1Merge

text \<open>
  The index object.  \<open>heap\<close> is the free store of the nodes made with \<^verbatim>\<open>new MSWNode\<close>:
  a pointer is a position in it, \<^verbatim>\<open>new\<close> appends.  \<open>ElList\<close> is the node table in its
  iteration order; a key occurs at most once (\<^verbatim>\<open>insert\<close> keeps the old entry).
\<close>

record 'd SmallWorldRand =
  space :: "'d Space"
  data :: "Object list"
  PrintProgress :: bool
  use_proxy_dist :: bool
  NN :: nat
  efConstruction :: nat
  efSearch :: nat
  indexThreadQty :: nat
  searchAlgoType :: AlgoType
  ElList :: "(int \<times> ptr) list"
  pEntryPoint :: "ptr option"
  heap :: "MSWNode list"

definition deref :: "MSWNode list \<Rightarrow> ptr \<Rightarrow> error + MSWNode" where
  "deref h p = (if p < length h then Inr (h ! p)
                else Inl (UndefinedBehaviour ''pointer to no node''))"

definition new_MSWNode :: "Object \<Rightarrow> nat \<Rightarrow> MSWNode list \<Rightarrow> ptr \<times> MSWNode list" where
  "new_MSWNode Obj i h = (length h, h @ [\<lparr>node_data = Obj, node_id = i, friends = []\<rparr>])"

subsection \<open>Priority queues\<close>

text \<open>
  \<^verbatim>\<open>std::priority_queue\<close> as a list with the top element first.  \<open>pq_push_max\<close> serves
  the queues whose top is the largest distance (\<^verbatim>\<open>closestDistQueue\<close>,
  \<^verbatim>\<open>resultSet\<close>), \<open>pq_push_min\<close> the queues of \<^verbatim>\<open>EvaluatedMSWNodeReverse\<close>, whose
  top is the smallest distance.  \<^verbatim>\<open>pop\<close> is \<open>tl\<close>.  Which of several elements of equal
  distance is the top is decided by the heap of the C++ library and may differ from one
  library to another; here it is the one pushed last.  The examples of the section
  \<open>A small index\<close> have no two equal distances in one queue.
\<close>

fun pq_push_max :: "('a \<Rightarrow> 'd::linorder) \<Rightarrow> 'a \<Rightarrow> 'a list \<Rightarrow> 'a list" where
  "pq_push_max key x [] = [x]"
| "pq_push_max key x (y # ys) =
     (if key y \<le> key x then x # y # ys else y # pq_push_max key x ys)"

fun pq_push_min :: "('a \<Rightarrow> 'd::linorder) \<Rightarrow> 'a \<Rightarrow> 'a list \<Rightarrow> 'a list" where
  "pq_push_min key x [] = [x]"
| "pq_push_min key x (y # ys) =
     (if key x \<le> key y then x # y # ys else y # pq_push_min key x ys)"

definition trim :: "nat \<Rightarrow> 'a list \<Rightarrow> 'a list" where
  "trim cap q = (if length q > cap then tl q else q)"

text \<open>
  The test \<^verbatim>\<open>q.size() < cap || d < q.top()\<close>: the second operand is evaluated only
  when the first is false, and then reads the top of the queue.
\<close>

definition admits :: "nat \<Rightarrow> 'd::linorder \<Rightarrow> 'd list \<Rightarrow> error + bool" where
  "admits cap d keys =
     (if length keys < cap then Inr True
      else case keys of
             [] \<Rightarrow> Inl (UndefinedBehaviour ''top() of an empty queue'')
           | t # _ \<Rightarrow> Inr (d < t))"

definition unvisited :: "bool list \<Rightarrow> nat" where
  "unvisited bs = length (filter Not bs)"

section \<open>Beam search for indexing\<close>

text \<open>
  The local variables of \<^verbatim>\<open>searchForIndexing\<close>.  \<open>sfi_evaluated\<close> and \<open>sfi_iters\<close>
  are ghost fields: the nodes whose distance to the query was computed, in that order,
  and the number of passes through the \<^verbatim>\<open>while\<close> loop.
\<close>

record 'd sfi_state =
  sfi_visited :: "bool list"
  sfi_closest :: "'d list"
  sfi_candidates :: "('d \<times> ptr) list"
  sfi_result :: "('d \<times> ptr) list"
  sfi_evaluated :: "ptr list"
  sfi_iters :: nat

text \<open>Lines 287 to 317: the loop over the copied neighbours of the current node.\<close>

fun sfi_neighbors ::
  "MSWNode list \<Rightarrow> (Object \<Rightarrow> 'd::linorder) \<Rightarrow> nat \<Rightarrow> nat \<Rightarrow> nat \<Rightarrow> ptr list \<Rightarrow>
   'd sfi_state \<Rightarrow> error + 'd sfi_state" where
  "sfi_neighbors h dist nn efc maxInternalId [] s = Inr s"
| "sfi_neighbors h dist nn efc maxInternalId (pNeighbor # rest) s =
    (case deref h pNeighbor of
       Inl e \<Rightarrow> Inl e
     | Inr nb \<Rightarrow>
        if node_id nb > maxInternalId then Inl (RuntimeError ''Bug: nodeId >  maxInternalId'')
        else if node_id nb \<ge> length (sfi_visited s)
          then Inl (UndefinedBehaviour ''bitset index out of range'')
        else if sfi_visited s ! node_id nb then sfi_neighbors h dist nn efc maxInternalId rest s
        else
          let d = dist (node_data nb);
              s1 = s\<lparr>sfi_visited := (sfi_visited s)[node_id nb := True],
                     sfi_evaluated := sfi_evaluated s @ [pNeighbor]\<rparr>
          in case admits efc d (sfi_closest s1) of
               Inl e \<Rightarrow> Inl e
             | Inr a \<Rightarrow>
                let s2 = (if a then s1\<lparr>sfi_closest := trim efc (pq_push_max (\<lambda>x. x) d (sfi_closest s1)),
                                       sfi_candidates := pq_push_min fst (d, pNeighbor) (sfi_candidates s1)\<rparr>
                          else s1)
                in case admits nn d (map fst (sfi_result s2)) of
                     Inl e \<Rightarrow> Inl e
                   | Inr b \<Rightarrow>
                      sfi_neighbors h dist nn efc maxInternalId rest
                        (if b then s2\<lparr>sfi_result := trim nn (pq_push_max fst (d, pNeighbor) (sfi_result s2))\<rparr>
                         else s2))"

lemma unvisited_update:
  "i < length bs \<Longrightarrow> \<not> bs ! i \<Longrightarrow> unvisited (bs[i := True]) < unvisited bs"
proof (induction bs arbitrary: i)
  case Nil
  then show ?case by simp
next
  case (Cons b bs)
  then show ?case by (cases i) (auto simp: unvisited_def)
qed

lemma length_pq_push_min [simp]: "length (pq_push_min key x xs) = Suc (length xs)"
  by (induction xs) auto

lemma length_pq_push_max [simp]: "length (pq_push_max key x xs) = Suc (length xs)"
  by (induction xs) auto

lemma set_pq_push_min [simp]: "set (pq_push_min key x xs) = insert x (set xs)"
  by (induction xs) auto

lemma set_pq_push_max [simp]: "set (pq_push_max key x xs) = insert x (set xs)"
  by (induction xs) auto

lemma set_trim: "set (trim cap q) \<subseteq> set q"
  by (cases q) (auto simp: trim_def)

lemma sfi_neighbors_progress:
  "sfi_neighbors h dist nn efc m ps s = Inr s' \<Longrightarrow>
   unvisited (sfi_visited s') < unvisited (sfi_visited s) \<or>
   (sfi_visited s' = sfi_visited s \<and> sfi_candidates s' = sfi_candidates s)"
proof (induction ps arbitrary: s)
  case Nil
  then show ?case by simp
next
  case (Cons p ps)
  from Cons.prems obtain nb where nb: "deref h p = Inr nb"
    by (auto split: sum.splits)
  from Cons.prems nb have rng: "node_id nb < length (sfi_visited s)"
    by (auto split: if_splits)
  show ?case
  proof (cases "sfi_visited s ! node_id nb")
    case True
    with Cons.prems nb rng have "sfi_neighbors h dist nn efc m ps s = Inr s'"
      by (auto split: if_splits)
    from Cons.IH [OF this] show ?thesis .
  next
    case False
    with Cons.prems nb rng obtain s3 where
      run: "sfi_neighbors h dist nn efc m ps s3 = Inr s'" and
      vis: "sfi_visited s3 = (sfi_visited s)[node_id nb := True]"
      by (auto simp: Let_def split: if_splits sum.splits)
    from unvisited_update [OF rng False] vis
    have "unvisited (sfi_visited s3) < unvisited (sfi_visited s)" by simp
    with Cons.IH [OF run] show ?thesis by auto
  qed
qed

text \<open>Lines 255 to 318: the \<^verbatim>\<open>while\<close> loop over the candidate queue.\<close>

function sfi_loop ::
  "MSWNode list \<Rightarrow> (Object \<Rightarrow> 'd::linorder) \<Rightarrow> nat \<Rightarrow> nat \<Rightarrow> nat \<Rightarrow>
   'd sfi_state \<Rightarrow> error + 'd sfi_state" where
  "sfi_loop h dist nn efc maxInternalId s =
    (case sfi_candidates s of
       [] \<Rightarrow> Inr s
     | currEv # cands \<Rightarrow>
        (case sfi_closest s of
           [] \<Rightarrow> Inl (UndefinedBehaviour ''top() of an empty queue'')
         | lowerBound # _ \<Rightarrow>
            if fst currEv > lowerBound then Inr s
            else
              (case deref h (snd currEv) of
                 Inl e \<Rightarrow> Inl e
               | Inr currNode \<Rightarrow>
                  (case sfi_neighbors h dist nn efc maxInternalId (friends currNode)
                          (s\<lparr>sfi_candidates := cands, sfi_iters := Suc (sfi_iters s)\<rparr>) of
                     Inl e \<Rightarrow> Inl e
                   | Inr s' \<Rightarrow> sfi_loop h dist nn efc maxInternalId s'))))"
  by pat_completeness auto
termination
proof (relation "measures [\<lambda>(h, dist, nn, efc, m, s). unvisited (sfi_visited s),
                           \<lambda>(h, dist, nn, efc, m, s). length (sfi_candidates s)]", goal_cases)
  case 1
  show ?case by simp
next
  case (2 h dist nn efc maxInternalId s currEv cands lowerBound xs currNode s')
  from sfi_neighbors_progress [OF 2(5)] 2(1) show ?case by auto
qed

declare sfi_loop.simps [simp del]

definition index_dist :: "'d SmallWorldRand \<Rightarrow> Object \<Rightarrow> Object \<Rightarrow> 'd" where
  "index_dist ix a q =
     (if use_proxy_dist ix then ProxyDistance (space ix) a q
      else IndexTimeDistance (space ix) a q)"

text \<open>
  \<^verbatim>\<open>searchForIndexing\<close>, lines 204 to 319.  \<open>resultSet\<close> is the queue the caller passes
  by reference; the final local state is returned, \<open>sfi_result\<close> being that queue.
\<close>

definition searchForIndexing ::
  "'d::linorder SmallWorldRand \<Rightarrow> Object \<Rightarrow> ('d \<times> ptr) list \<Rightarrow> nat \<Rightarrow> error + 'd sfi_state" where
  "searchForIndexing ix queryObj resultSet maxInternalId =
    (case pEntryPoint ix of
       None \<Rightarrow> Inl (CheckFailed ''Bug: there is not entry point set!'')
     | Some provider \<Rightarrow>
        (case deref (heap ix) provider of
           Inl e \<Rightarrow> Inl e
         | Inr pn \<Rightarrow>
            let d = index_dist ix (node_data pn) queryObj in
            if node_id pn > maxInternalId then Inl (RuntimeError ''Bug: nodeId > maxInternalId'')
            else sfi_loop (heap ix) (\<lambda>a. index_dist ix a queryObj) (NN ix) (efConstruction ix)
                   maxInternalId
                   \<lparr>sfi_visited = (replicate (maxInternalId + 1) False)[node_id pn := True],
                    sfi_closest = trim (efConstruction ix) [d],
                    sfi_candidates = [(d, provider)],
                    sfi_result = trim (NN ix) (pq_push_max fst (d, provider) resultSet),
                    sfi_evaluated = [provider],
                    sfi_iters = 0\<rparr>))"

section \<open>Insertion and index construction\<close>

text \<open>
  Modelled from the spec: \<^verbatim>\<open>MSWNode::addFriend\<close> and \<^verbatim>\<open>link\<close> of
  \<^verbatim>\<open>small_world_rand.h\<close>, which is not among the sources.  \<^verbatim>\<open>link\<close> adds each node
  to the friend list of the other, without a duplicate check.
\<close>

definition addFriend :: "ptr \<Rightarrow> ptr \<Rightarrow> MSWNode list \<Rightarrow> MSWNode list" where
  "addFriend p f h = h[p := (h ! p)\<lparr>friends := friends (h ! p) @ [f]\<rparr>]"

definition link :: "ptr \<Rightarrow> ptr \<Rightarrow> MSWNode list \<Rightarrow> MSWNode list" where
  "link first second h = addFriend second first (addFriend first second h)"

text \<open>
  \<^verbatim>\<open>ElList_.insert(make_pair(key, node))\<close>: a key that is present keeps its node.  The
  type of the table is declared outside the sources; a new key goes to the end of the
  iteration order here.  What is proved of a table below either starts from the empty
  table or holds for every order of its entries.
\<close>

definition ElList_insert :: "int \<Rightarrow> ptr \<Rightarrow> (int \<times> ptr) list \<Rightarrow> (int \<times> ptr) list" where
  "ElList_insert k p m = (if k \<in> fst ` set m then m else m @ [(k, p)])"

definition addCriticalSection ::
  "'d SmallWorldRand \<Rightarrow> ptr \<Rightarrow> error + 'd SmallWorldRand" where
  "addCriticalSection ix newElement =
     (case deref (heap ix) newElement of
        Inl e \<Rightarrow> Inl e
      | Inr x \<Rightarrow> Inr (ix\<lparr>ElList := ElList_insert (obj_id (node_data x)) newElement (ElList ix)\<rparr>))"

text \<open>Lines 346 to 349: the result queue is emptied from its top, linking each node.\<close>

fun link_all :: "('d \<times> ptr) list \<Rightarrow> ptr \<Rightarrow> MSWNode list \<Rightarrow> MSWNode list" where
  "link_all [] newElement h = h"
| "link_all (ev # resultSet) newElement h =
     link_all resultSet newElement (link (snd ev) newElement h)"

definition add :: "'d::linorder SmallWorldRand \<Rightarrow> ptr \<Rightarrow> nat \<Rightarrow> error + 'd SmallWorldRand" where
  "add ix newElement maxInternalId =
     (case deref (heap ix) newElement of
        Inl e \<Rightarrow> Inl e
      | Inr x \<Rightarrow>
         let ix1 = ix\<lparr>heap := (heap ix)[newElement := x\<lparr>friends := []\<rparr>]\<rparr> in
         if ElList ix1 = []
         then Inl (RuntimeError (''Bug: the list of nodes shouldn'' @ [CHR 0x27] @ ''t be empty!''))
         else
           (case searchForIndexing ix1 (node_data x) [] maxInternalId of
              Inl e \<Rightarrow> Inl e
            | Inr s \<Rightarrow>
               addCriticalSection
                 (ix1\<lparr>heap := link_all (sfi_result s) newElement (heap ix1)\<rparr>) newElement))"

text \<open>
  The parameters as \<^verbatim>\<open>AnyParamManager\<close> hands them over: \<open>None\<close> for a parameter
  that was not given.  The manager itself is not among the sources.
\<close>

record IndexParams =
  p_NN :: "nat option"
  p_efConstruction :: "nat option"
  p_indexThreadQty :: "nat option"
  p_useProxyDist :: "bool option"

record QueryTimeParams =
  p_efSearch :: "nat option"
  p_algoType :: "string option"

definition getEmptyParams :: QueryTimeParams where
  "getEmptyParams = \<lparr>p_efSearch = None, p_algoType = None\<rparr>"

definition ToLower :: "string \<Rightarrow> string" where
  "ToLower s = map (\<lambda>c. if 65 \<le> (of_char c :: nat) \<and> (of_char c :: nat) \<le> 90
                         then char_of (of_char c + 32 :: nat) else c) s"

definition SetQueryTimeParams ::
  "'d SmallWorldRand \<Rightarrow> QueryTimeParams \<Rightarrow> error + 'd SmallWorldRand" where
  "SetQueryTimeParams ix prm =
     (let ix1 = ix\<lparr>efSearch := (case p_efSearch prm of None \<Rightarrow> NN ix | Some v \<Rightarrow> v)\<rparr>;
          tmp = ToLower (case p_algoType prm of None \<Rightarrow> ''old'' | Some t \<Rightarrow> t)
      in if tmp = ''v1merge'' then Inr (ix1\<lparr>searchAlgoType := kV1Merge\<rparr>)
         else if tmp = ''old'' then Inr (ix1\<lparr>searchAlgoType := kOld\<rparr>)
         else Inl (RuntimeError ''algoType should be one of the following: old, v1merge''))"

text \<open>Lines 142 to 146: the sequential insertion of the objects \<open>1, \<dots>, N - 1\<close>.\<close>

fun add_all :: "'d::linorder SmallWorldRand \<Rightarrow> nat list \<Rightarrow> error + 'd SmallWorldRand" where
  "add_all ix [] = Inr ix"
| "add_all ix (i # ids) =
     (case new_MSWNode (data ix ! i) i (heap ix) of
        (node, h) \<Rightarrow>
          (case add (ix\<lparr>heap := h\<rparr>) node (length (data ix)) of
             Inl e \<Rightarrow> Inl e
           | Inr ix' \<Rightarrow> add_all ix' ids))"

text \<open>
  \<^verbatim>\<open>CreateIndex\<close>, lines 110 to 171.  \<open>hardware_concurrency\<close> is the value of
  \<^verbatim>\<open>thread::hardware_concurrency()\<close>.  The progress display only writes to
  \<^verbatim>\<open>cerr\<close> and is not part of the index; it is left out.

  With more than one thread, lines 148 to 162 start the worker threads and join them.
  Each worker inserts its share of the objects with \<^verbatim>\<open>add(node, data_.size())\<close>, and the
  steps of the workers interleave: what the index is when the last worker has been joined
  is no function of the arguments of \<^verbatim>\<open>CreateIndex\<close>.  It is the first argument here,
  \<open>joined\<close>, which maps the index as it is when the workers start to the index they leave
  (or to an error); nothing is assumed of it.  The check of the table size, lines 163 to
  168, follows.
\<close>

definition CreateIndex ::
  "('d SmallWorldRand \<Rightarrow> error + 'd SmallWorldRand) \<Rightarrow> nat \<Rightarrow>
   'd::linorder SmallWorldRand \<Rightarrow> IndexParams \<Rightarrow> error + 'd SmallWorldRand" where
  "CreateIndex joined hardware_concurrency ix prm =
     (let nn = (case p_NN prm of None \<Rightarrow> 10 | Some v \<Rightarrow> v);
          ix1 = ix\<lparr>NN := nn,
                   efConstruction := (case p_efConstruction prm of None \<Rightarrow> nn | Some v \<Rightarrow> v),
                   efSearch := nn,
                   indexThreadQty :=
                     (case p_indexThreadQty prm of None \<Rightarrow> hardware_concurrency | Some v \<Rightarrow> v),
                   use_proxy_dist := (case p_useProxyDist prm of None \<Rightarrow> False | Some v \<Rightarrow> v)\<rparr>
      in case SetQueryTimeParams ix1 getEmptyParams of
           Inl e \<Rightarrow> Inl e
         | Inr ix2 \<Rightarrow>
            if data ix2 = [] then Inr ix2
            else
              (case new_MSWNode (data ix2 ! 0) 0 (heap ix2) of
                 (node, h) \<Rightarrow>
                   (case addCriticalSection (ix2\<lparr>heap := h\<rparr>) node of
                      Inl e \<Rightarrow> Inl e
                    | Inr ix3 \<Rightarrow>
                       (case ElList ix3 of
                          [] \<Rightarrow> Inl (UndefinedBehaviour ''begin() of an empty table'')
                        | first # _ \<Rightarrow>
                           let ix4 = ix3\<lparr>pEntryPoint := Some (snd first)\<rparr> in
                           if indexThreadQty ix4 \<le> 1
                           then add_all ix4 [1..<length (data ix4)]
                           else
                             (case joined ix4 of
                                Inl e \<Rightarrow> Inl e
                              | Inr ix5 \<Rightarrow>
                                 if length (ElList ix5) \<noteq> length (data ix5)
                                 then Inl (RuntimeError
                                        (''Bug: ElList_.size() isn'' @ [CHR 0x27] @
                                         ''t equal to data_.size()''))
                                 else Inr ix5)))))"

text \<open>
  The constructor, lines 104 to 107.  Its initialiser list names four members:
  \<^verbatim>\<open>space_\<close>, \<^verbatim>\<open>data_\<close>, \<^verbatim>\<open>PrintProgress_\<close> and \<^verbatim>\<open>use_proxy_dist_\<close>; the node table is
  constructed empty.  The members \<^verbatim>\<open>NN_\<close>, \<^verbatim>\<open>efConstruction_\<close>, \<^verbatim>\<open>efSearch_\<close>,
  \<^verbatim>\<open>indexThreadQty_\<close>, \<^verbatim>\<open>searchAlgoType_\<close> and \<^verbatim>\<open>pEntryPoint_\<close> are not named, and the
  body is empty: they hold what the memory of the object held before (the declaration of
  the class is not among the sources).  These values are the record \<open>members\<close>, the first
  argument of the constructor here; nothing is assumed of them.
\<close>

record members =
  mem_NN :: nat
  mem_efConstruction :: nat
  mem_efSearch :: nat
  mem_indexThreadQty :: nat
  mem_searchAlgoType :: AlgoType
  mem_pEntryPoint :: "ptr option"

definition SmallWorldRand_new ::
  "members \<Rightarrow> bool \<Rightarrow> 'd Space \<Rightarrow> Object list \<Rightarrow> 'd SmallWorldRand" where
  "SmallWorldRand_new mem printProgress sp dat =
     \<lparr>space = sp, data = dat, PrintProgress = printProgress, use_proxy_dist = False,
      NN = mem_NN mem, efConstruction = mem_efConstruction mem, efSearch = mem_efSearch mem,
      indexThreadQty = mem_indexThreadQty mem, searchAlgoType = mem_searchAlgoType mem,
      ElList = [], pEntryPoint = mem_pEntryPoint mem, heap = []\<rparr>"

section \<open>Query: the classic beam search\<close>

text \<open>
  Modelled from the spec: the kNN query object of \<^verbatim>\<open>knnquery.h\<close>, which is not among
  the sources.  It exposes \<open>k\<close>, the distance of an object to the query, and the sink
  \<^verbatim>\<open>CheckAndAddToResult\<close>, which keeps the caller's own result; the index makes no
  assumption on what the sink does with an offer, so \<open>offered\<close> is the list of the offers
  in the order they were made.
\<close>

record 'd KNNQuery =
  GetK :: nat
  DistanceObjLeft :: "Object \<Rightarrow> 'd"
  offered :: "('d \<times> Object) list"

definition CheckAndAddToResult :: "'d \<Rightarrow> Object \<Rightarrow> 'd KNNQuery \<Rightarrow> 'd KNNQuery" where
  "CheckAndAddToResult d obj q = q\<lparr>offered := offered q @ [(d, obj)]\<rparr>"

text \<open>
  The local variables of \<^verbatim>\<open>SearchOld\<close>; \<open>so_evaluated\<close> and \<open>so_iters\<close> are ghost
  fields as in \<open>sfi_state\<close>.
\<close>

record 'd so_state =
  so_visited :: "bool list"
  so_closest :: "'d list"
  so_candidates :: "('d \<times> ptr) list"
  so_query :: "'d KNNQuery"
  so_evaluated :: "ptr list"
  so_iters :: nat

text \<open>Lines 544 to 568; \<open>n\<close> is \<^verbatim>\<open>ElList_.size()\<close>.\<close>

fun so_neighbors ::
  "MSWNode list \<Rightarrow> nat \<Rightarrow> nat \<Rightarrow> ptr list \<Rightarrow> 'd::linorder so_state \<Rightarrow> error + 'd so_state" where
  "so_neighbors h efs n [] s = Inr s"
| "so_neighbors h efs n (p # rest) s =
    (case deref h p of
       Inl e \<Rightarrow> Inl e
     | Inr nb \<Rightarrow>
        if node_id nb \<ge> n then Inl (RuntimeError ''Bug: nodeId > ElList_.size()'')
        else if node_id nb \<ge> length (so_visited s)
          then Inl (UndefinedBehaviour ''bitset index out of range'')
        else if so_visited s ! node_id nb then so_neighbors h efs n rest s
        else
          let currObj = node_data nb;
              d = DistanceObjLeft (so_query s) currObj;
              s1 = s\<lparr>so_visited := (so_visited s)[node_id nb := True],
                     so_evaluated := so_evaluated s @ [p]\<rparr>
          in case admits efs d (so_closest s1) of
               Inl e \<Rightarrow> Inl e
             | Inr a \<Rightarrow>
                let s2 = (if a then s1\<lparr>so_closest := trim efs (pq_push_max (\<lambda>x. x) d (so_closest s1)),
                                       so_candidates := pq_push_min fst (d, p) (so_candidates s1)\<rparr>
                          else s1)
                in so_neighbors h efs n rest
                     (s2\<lparr>so_query := CheckAndAddToResult d currObj (so_query s2)\<rparr>))"

lemma so_neighbors_progress:
  "so_neighbors h efs n ps s = Inr s' \<Longrightarrow>
   unvisited (so_visited s') < unvisited (so_visited s) \<or>
   (so_visited s' = so_visited s \<and> so_candidates s' = so_candidates s)"
proof (induction ps arbitrary: s)
  case Nil
  then show ?case by simp
next
  case (Cons p ps)
  from Cons.prems obtain nb where nb: "deref h p = Inr nb"
    by (auto split: sum.splits)
  from Cons.prems nb have rng: "node_id nb < length (so_visited s)"
    by (auto split: if_splits)
  show ?case
  proof (cases "so_visited s ! node_id nb")
    case True
    with Cons.prems nb rng have "so_neighbors h efs n ps s = Inr s'"
      by (auto split: if_splits)
    from Cons.IH [OF this] show ?thesis .
  next
    case False
    with Cons.prems nb rng obtain s3 where
      run: "so_neighbors h efs n ps s3 = Inr s'" and
      vis: "so_visited s3 = (so_visited s)[node_id nb := True]"
      by (auto simp: Let_def split: if_splits sum.splits)
    from unvisited_update [OF rng False] vis
    have "unvisited (so_visited s3) < unvisited (so_visited s)" by simp
    with Cons.IH [OF run] show ?thesis by auto
  qed
qed

text \<open>Lines 521 to 569: the \<^verbatim>\<open>while\<close> loop over the candidate queue.\<close>

function so_loop ::
  "MSWNode list \<Rightarrow> nat \<Rightarrow> nat \<Rightarrow> 'd::linorder so_state \<Rightarrow> error + 'd so_state" where
  "so_loop h efs n s =
    (case so_candidates s of
       [] \<Rightarrow> Inr s
     | currEv # cands \<Rightarrow>
        (case so_closest s of
           [] \<Rightarrow> Inl (UndefinedBehaviour ''top() of an empty queue'')
         | t # _ \<Rightarrow>
            if fst currEv > t then Inr s
            else
              (case deref h (snd currEv) of
                 Inl e \<Rightarrow> Inl e
               | Inr currNode \<Rightarrow>
                  (case so_neighbors h efs n (friends currNode)
                          (s\<lparr>so_candidates := cands, so_iters := Suc (so_iters s)\<rparr>) of
                     Inl e \<Rightarrow> Inl e
                   | Inr s' \<Rightarrow> so_loop h efs n s'))))"
  by pat_completeness auto
termination
proof (relation "measures [\<lambda>(h, efs, n, s). unvisited (so_visited s),
                           \<lambda>(h, efs, n, s). length (so_candidates s)]", goal_cases)
  case 1
  show ?case by simp
next
  case (2 h efs n s currEv cands t ts currNode s')
  from so_neighbors_progress [OF 2(5)] 2(1) show ?case by auto
qed

declare so_loop.simps [simp del]

text \<open>
  \<^verbatim>\<open>SearchOld\<close> after its first line, lines 486 to 569, returning the final local state.
\<close>

definition SearchOld_body ::
  "'d::linorder SmallWorldRand \<Rightarrow> 'd KNNQuery \<Rightarrow> error + 'd so_state" where
  "SearchOld_body ix query =
    (if \<not> efSearch ix > 0 then Inl (CheckFailed ''efSearch should be > 0'')
     else
      (case pEntryPoint ix of
         None \<Rightarrow> Inl (CheckFailed ''Bug: there is not entry point set!'')
       | Some provider \<Rightarrow>
          (case deref (heap ix) provider of
             Inl e \<Rightarrow> Inl e
           | Inr pn \<Rightarrow>
              let currObj = node_data pn;
                  d = DistanceObjLeft query currObj;
                  query1 = CheckAndAddToResult d currObj query
              in if node_id pn \<ge> length (ElList ix)
                 then Inl (RuntimeError ''Bug: nodeId > ElList_.size()'')
                 else so_loop (heap ix) (efSearch ix) (length (ElList ix))
                        \<lparr>so_visited = (replicate (length (ElList ix)) False)[node_id pn := True],
                         so_closest = [d],
                         so_candidates = [(d, provider)],
                         so_query = query1,
                         so_evaluated = [provider],
                         so_iters = 0\<rparr>)))"

definition SearchOld :: "'d::linorder SmallWorldRand \<Rightarrow> 'd KNNQuery \<Rightarrow> error + 'd KNNQuery" where
  "SearchOld ix query =
     (if ElList ix = [] then Inr query
      else case SearchOld_body ix query of
             Inl e \<Rightarrow> Inl e
           | Inr s \<Rightarrow> Inr (so_query s))"

section \<open>Query: the sorted-array beam search\<close>

text \<open>
  Modelled from the spec: the buffer \<^verbatim>\<open>SortArrBI\<close> of \<^verbatim>\<open>sort_arr_bi.h\<close>, which is not
  among the sources.  A fixed-capacity ordered buffer of items \<open>(key, data, used)\<close>;
  \<open>items\<close> holds the elements that are present, so its length is \<^verbatim>\<open>size()\<close>.
\<close>

record 'd Item =
  item_key :: 'd
  item_used :: bool
  item_data :: ptr

record 'd SortArrBI =
  items :: "'d Item list"
  max_elem :: nat

definition SortArrBI_new :: "nat \<Rightarrow> 'd SortArrBI" where
  "SortArrBI_new cap = \<lparr>items = [], max_elem = cap\<rparr>"

definition QueueItem :: "'d \<Rightarrow> ptr \<Rightarrow> 'd Item" where
  "QueueItem k x = \<lparr>item_key = k, item_used = False, item_data = x\<rparr>"

text \<open>
  Modelled from the spec: \<^verbatim>\<open>push_unsorted_grow\<close>, used once, to put the entry point into
  the empty buffer.
\<close>

definition push_unsorted_grow :: "'d \<Rightarrow> ptr \<Rightarrow> 'd SortArrBI \<Rightarrow> 'd SortArrBI" where
  "push_unsorted_grow k x b = b\<lparr>items := items b @ [QueueItem k x]\<rparr>"

text \<open>
  Modelled from the spec: \<^verbatim>\<open>top_key()\<close> is the key at the capacity-th smallest slot when
  the buffer is full, else \<open>+\<infinity>\<close>, which is \<open>None\<close> here.
\<close>

definition top_key :: "'d SortArrBI \<Rightarrow> 'd option" where
  "top_key b = (if items b \<noteq> [] \<and> length (items b) = max_elem b
                then Some (item_key (last (items b))) else None)"

definition below_top :: "'d::linorder \<Rightarrow> 'd option \<Rightarrow> bool" where
  "below_top d t = (case t of None \<Rightarrow> True | Some k \<Rightarrow> d < k)"

text \<open>
  Modelled from the spec: \<^verbatim>\<open>push_or_replace(k, v)\<close>: if the buffer is at capacity and
  \<open>k \<ge> top_key\<close>, drop; otherwise insert into sorted position, evict the last; return
  the insertion index.  For a dropped item, of which the spec names no index, the count
  of elements is returned.
\<close>

definition push_or_replace_non_empty_exp ::
  "'d::linorder \<Rightarrow> ptr \<Rightarrow> 'd SortArrBI \<Rightarrow> nat \<times> 'd SortArrBI" where
  "push_or_replace_non_empty_exp k x b =
     (if length (items b) \<ge> max_elem b \<and> \<not> below_top k (top_key b) then (length (items b), b)
      else
        let pos = length (takeWhile (\<lambda>e. item_key e \<le> k) (items b))
        in (pos, b\<lparr>items := take (max_elem b)
                               (take pos (items b) @ [QueueItem k x] @ drop pos (items b))\<rparr>))"

text \<open>
  Modelled from the spec: \<^verbatim>\<open>merge_with_sorted(items)\<close>: merge a sorted batch into the
  buffer, keeping size \<open>\<le>\<close> capacity; return the smallest insertion index touched
  (the count of elements when no item of the batch gets in).
\<close>

fun merge_items :: "'d::linorder Item list \<Rightarrow> 'd Item list \<Rightarrow> 'd Item list" where
  "merge_items [] ys = ys"
| "merge_items xs [] = xs"
| "merge_items (x # xs) (y # ys) =
     (if item_key x \<le> item_key y then x # merge_items xs (y # ys)
      else y # merge_items (x # xs) ys)"

definition merge_with_sorted_items ::
  "'d::linorder Item list \<Rightarrow> 'd SortArrBI \<Rightarrow> nat \<times> 'd SortArrBI" where
  "merge_with_sorted_items batch b =
     (let m = take (max_elem b) (merge_items (items b) batch);
          pos = (case batch of
                   [] \<Rightarrow> length m
                 | y # _ \<Rightarrow> min (length m)
                            (length (takeWhile (\<lambda>e. item_key e \<le> item_key y) (items b))))
      in (pos, b\<lparr>items := m\<rparr>))"

text \<open>
  The local variables of \<^verbatim>\<open>SearchV1Merge\<close>.  \<open>v1_itemBuff\<close> is the filled part of
  \<^verbatim>\<open>itemBuff\<close> (its length is \<^verbatim>\<open>itemQty\<close>); \<open>v1_evaluated\<close> and \<open>v1_iters\<close> are
  ghost fields as in \<open>sfi_state\<close>.
\<close>

record 'd v1_state =
  v1_visited :: "bool list"
  v1_sortedArr :: "'d SortArrBI"
  v1_currElem :: nat
  v1_itemBuff :: "'d Item list"
  v1_query :: "'d KNNQuery"
  v1_evaluated :: "ptr list"
  v1_iters :: nat

text \<open>
  Lines 435 to 447; \<open>n\<close> is \<^verbatim>\<open>ElList_.size()\<close>, \<open>sz\<close> is \<^verbatim>\<open>sortedArr.size()\<close>, which
  does not change in this loop.
\<close>

fun v1_neighbors ::
  "MSWNode list \<Rightarrow> nat \<Rightarrow> nat \<Rightarrow> nat \<Rightarrow> 'd::linorder option \<Rightarrow> ptr list \<Rightarrow>
   'd v1_state \<Rightarrow> error + 'd v1_state" where
  "v1_neighbors h efs n sz topKey [] s = Inr s"
| "v1_neighbors h efs n sz topKey (neighbor # rest) s =
    (case deref h neighbor of
       Inl e \<Rightarrow> Inl e
     | Inr nb \<Rightarrow>
        if \<not> node_id nb < n then Inl (CheckFailed ''nodeId < ElList_.size()'')
        else if node_id nb \<ge> length (v1_visited s)
          then Inl (UndefinedBehaviour ''bitset index out of range'')
        else if v1_visited s ! node_id nb then v1_neighbors h efs n sz topKey rest s
        else
          let d = DistanceObjLeft (v1_query s) (node_data nb);
              s1 = s\<lparr>v1_visited := (v1_visited s)[node_id nb := True],
                     v1_evaluated := v1_evaluated s @ [neighbor]\<rparr>
          in v1_neighbors h efs n sz topKey rest
               (if sz < efs \<or> below_top d topKey
                then s1\<lparr>v1_itemBuff := v1_itemBuff s1 @ [QueueItem d neighbor]\<rparr>
                else s1))"

text \<open>Lines 461 to 467: the items of the sorted batch are pushed one by one.\<close>

fun v1_push_all :: "'d::linorder Item list \<Rightarrow> 'd SortArrBI \<times> nat \<Rightarrow> 'd SortArrBI \<times> nat" where
  "v1_push_all [] (arr, currElem) = (arr, currElem)"
| "v1_push_all (it # rest) (arr, currElem) =
     (case push_or_replace_non_empty_exp (item_key it) (item_data it) arr of
        (insIndex, arr') \<Rightarrow>
          v1_push_all rest (arr', if insIndex < currElem then insIndex else currElem))"

definition MERGE_BUFFER_ALGO_SWITCH_THRESHOLD :: nat where
  "MERGE_BUFFER_ALGO_SWITCH_THRESHOLD = 100"

text \<open>Lines 449 to 469.\<close>

definition v1_insert :: "'d::linorder v1_state \<Rightarrow> 'd v1_state" where
  "v1_insert s =
     (if v1_itemBuff s = [] then s
      else
        let batch = sort_key item_key (v1_itemBuff s) in
        if length batch > MERGE_BUFFER_ALGO_SWITCH_THRESHOLD
        then (case merge_with_sorted_items batch (v1_sortedArr s) of
                (insIndex, arr') \<Rightarrow>
                  s\<lparr>v1_sortedArr := arr',
                    v1_currElem := (if insIndex < v1_currElem s then insIndex else v1_currElem s)\<rparr>)
        else (case v1_push_all batch (v1_sortedArr s, v1_currElem s) of
                (arr', currElem) \<Rightarrow> s\<lparr>v1_sortedArr := arr', v1_currElem := currElem\<rparr>))"

text \<open>Lines 472 and 473.\<close>

function v1_skip_used :: "'d Item list \<Rightarrow> nat \<Rightarrow> nat" where
  "v1_skip_used queueData currElem =
     (if currElem < length queueData \<and> item_used (queueData ! currElem)
      then v1_skip_used queueData (Suc currElem) else currElem)"
  by pat_completeness auto
termination
  by (relation "measure (\<lambda>(queueData, currElem). length queueData - currElem)") auto

declare v1_skip_used.simps [simp del]

text \<open>Lines 415 to 473: one pass through the \<^verbatim>\<open>while\<close> loop.\<close>

definition v1_body ::
  "MSWNode list \<Rightarrow> nat \<Rightarrow> nat \<Rightarrow> 'd::linorder v1_state \<Rightarrow> error + 'd v1_state" where
  "v1_body h efs n s =
     (let arr = v1_sortedArr s;
          e = items arr ! v1_currElem s
      in if item_used e then Inl (CheckFailed ''!e.used'')
         else
           let arr1 = arr\<lparr>items := (items arr)[v1_currElem s := e\<lparr>item_used := True\<rparr>]\<rparr>;
               s1 = s\<lparr>v1_sortedArr := arr1, v1_currElem := Suc (v1_currElem s),
                      v1_itemBuff := [], v1_iters := Suc (v1_iters s)\<rparr>
           in case deref h (item_data e) of
                Inl err \<Rightarrow> Inl err
              | Inr currNode \<Rightarrow>
                 (case v1_neighbors h efs n (length (items arr1)) (top_key arr1)
                         (friends currNode) s1 of
                    Inl err \<Rightarrow> Inl err
                  | Inr s2 \<Rightarrow>
                     let s3 = v1_insert s2
                     in Inr (s3\<lparr>v1_currElem :=
                                 v1_skip_used (items (v1_sortedArr s3)) (v1_currElem s3)\<rparr>)))"

definition unused :: "'d Item list \<Rightarrow> nat" where
  "unused xs = length (filter (\<lambda>e. \<not> item_used e) xs)"

lemma unused_update:
  "i < length xs \<Longrightarrow> \<not> item_used (xs ! i) \<Longrightarrow>
   unused (xs[i := (xs ! i)\<lparr>item_used := True\<rparr>]) < unused xs"
proof (induction xs arbitrary: i)
  case Nil
  then show ?case by simp
next
  case (Cons x xs)
  then show ?case by (cases i) (auto simp: unused_def)
qed

lemma v1_neighbors_frame:
  "v1_neighbors h efs n sz topKey ps s = Inr s' \<Longrightarrow>
   v1_sortedArr s' = v1_sortedArr s \<and> v1_currElem s' = v1_currElem s \<and>
   v1_iters s' = v1_iters s \<and> length (v1_visited s') = length (v1_visited s)"
proof (induction ps arbitrary: s)
  case Nil
  then show ?case by simp
next
  case (Cons p ps)
  from Cons.prems obtain s1 where
    run: "v1_neighbors h efs n sz topKey ps s1 = Inr s'" and
    fr: "v1_sortedArr s1 = v1_sortedArr s" "v1_currElem s1 = v1_currElem s"
        "v1_iters s1 = v1_iters s" "length (v1_visited s1) = length (v1_visited s)"
    by (auto simp: Let_def split: sum.splits if_splits)
  from Cons.IH [OF run] fr show ?case by simp
qed

lemma v1_neighbors_progress:
  "v1_neighbors h efs n sz topKey ps s = Inr s' \<Longrightarrow>
   unvisited (v1_visited s') < unvisited (v1_visited s) \<or>
   (v1_visited s' = v1_visited s \<and> v1_itemBuff s' = v1_itemBuff s)"
proof (induction ps arbitrary: s)
  case Nil
  then show ?case by simp
next
  case (Cons p ps)
  from Cons.prems obtain nb where nb: "deref h p = Inr nb"
    by (auto split: sum.splits)
  from Cons.prems nb have rng: "node_id nb < length (v1_visited s)"
    by (auto split: if_splits)
  show ?case
  proof (cases "v1_visited s ! node_id nb")
    case True
    with Cons.prems nb rng have "v1_neighbors h efs n sz topKey ps s = Inr s'"
      by (auto split: if_splits)
    from Cons.IH [OF this] show ?thesis .
  next
    case False
    with Cons.prems nb rng obtain s3 where
      run: "v1_neighbors h efs n sz topKey ps s3 = Inr s'" and
      vis: "v1_visited s3 = (v1_visited s)[node_id nb := True]"
      by (auto simp: Let_def split: if_splits sum.splits)
    from unvisited_update [OF rng False] vis
    have "unvisited (v1_visited s3) < unvisited (v1_visited s)" by simp
    with Cons.IH [OF run] show ?thesis by auto
  qed
qed

lemma v1_insert_visited [simp]: "v1_visited (v1_insert s) = v1_visited s"
  by (simp add: v1_insert_def Let_def split: prod.splits)

lemma v1_insert_empty: "v1_itemBuff s = [] \<Longrightarrow> v1_insert s = s"
  by (simp add: v1_insert_def)

lemma v1_body_progress:
  assumes cur: "v1_currElem s < length (items (v1_sortedArr s))"
    and run: "v1_body h efs n s = Inr s'"
  shows "unvisited (v1_visited s') < unvisited (v1_visited s) \<or>
         (v1_visited s' = v1_visited s \<and>
          unused (items (v1_sortedArr s')) < unused (items (v1_sortedArr s)))"
proof -
  define e where "e = items (v1_sortedArr s) ! v1_currElem s"
  define arr1 where
    "arr1 = (v1_sortedArr s)\<lparr>items := (items (v1_sortedArr s))[v1_currElem s := e\<lparr>item_used := True\<rparr>]\<rparr>"
  define s1 where
    "s1 = s\<lparr>v1_sortedArr := arr1, v1_currElem := Suc (v1_currElem s),
             v1_itemBuff := [], v1_iters := Suc (v1_iters s)\<rparr>"
  from run have nu: "\<not> item_used e"
    by (auto simp: v1_body_def Let_def e_def split: if_splits)
  from run nu obtain currNode :: MSWNode and s2 where
    nbs: "v1_neighbors h efs n (length (items arr1)) (top_key arr1) (friends currNode) s1 = Inr s2"
    and s': "s' = (v1_insert s2)\<lparr>v1_currElem :=
                   v1_skip_used (items (v1_sortedArr (v1_insert s2))) (v1_currElem (v1_insert s2))\<rparr>"
    by (auto simp: v1_body_def Let_def e_def arr1_def s1_def split: if_splits sum.splits)
  from v1_neighbors_progress [OF nbs]
  show ?thesis
  proof
    assume "unvisited (v1_visited s2) < unvisited (v1_visited s1)"
    then show ?thesis by (simp add: s' s1_def)
  next
    assume same: "v1_visited s2 = v1_visited s1 \<and> v1_itemBuff s2 = v1_itemBuff s1"
    then have "v1_itemBuff s2 = []" by (simp add: s1_def)
    then have ins: "v1_insert s2 = s2" by (rule v1_insert_empty)
    from v1_neighbors_frame [OF nbs] have arr: "v1_sortedArr s2 = arr1"
      by (simp add: s1_def)
    from unused_update [OF cur] nu
    have "unused (items arr1) < unused (items (v1_sortedArr s))"
      by (simp add: arr1_def e_def)
    with same ins arr show ?thesis by (simp add: s' s1_def)
  qed
qed

text \<open>Lines 414 to 474: the \<^verbatim>\<open>while\<close> loop over the sorted buffer.\<close>

function v1_loop ::
  "MSWNode list \<Rightarrow> nat \<Rightarrow> nat \<Rightarrow> 'd::linorder v1_state \<Rightarrow> error + 'd v1_state" where
  "v1_loop h efs n s =
     (if v1_currElem s < min (length (items (v1_sortedArr s))) efs
      then (case v1_body h efs n s of
              Inl e \<Rightarrow> Inl e
            | Inr s' \<Rightarrow> v1_loop h efs n s')
      else Inr s)"
  by pat_completeness auto
termination
proof (relation "measures [\<lambda>(h, efs, n, s). unvisited (v1_visited s),
                           \<lambda>(h, efs, n, s). unused (items (v1_sortedArr s))]", goal_cases)
  case 1
  show ?case by simp
next
  case (2 h efs n s s')
  from 2(1) have "v1_currElem s < length (items (v1_sortedArr s))" by simp
  from v1_body_progress [OF this 2(2)] show ?case by auto
qed

declare v1_loop.simps [simp del]

text \<open>Lines 476 to 478: the first \<open>k\<close> entries of the buffer go to the sink.\<close>

fun v1_emit :: "MSWNode list \<Rightarrow> 'd Item list \<Rightarrow> 'd KNNQuery \<Rightarrow> error + 'd KNNQuery" where
  "v1_emit h [] q = Inr q"
| "v1_emit h (e # es) q =
     (case deref h (item_data e) of
        Inl err \<Rightarrow> Inl err
      | Inr nd \<Rightarrow> v1_emit h es (CheckAndAddToResult (item_key e) (node_data nd) q))"

text \<open>
  \<^verbatim>\<open>SearchV1Merge\<close> between its first line and the final loop, lines 376 to 474,
  returning the local state at the end of the \<^verbatim>\<open>while\<close> loop.
\<close>

definition v1_init :: "'d::linorder SmallWorldRand \<Rightarrow> 'd KNNQuery \<Rightarrow> error + 'd v1_state" where
  "v1_init ix query =
    (if \<not> efSearch ix > 0 then Inl (CheckFailed ''efSearch should be > 0'')
     else
      (case pEntryPoint ix of
         None \<Rightarrow> Inl (CheckFailed ''Bug: there is not entry point set!'')
       | Some currNode \<Rightarrow>
          (case deref (heap ix) currNode of
             Inl e \<Rightarrow> Inl e
           | Inr cn \<Rightarrow>
              let sortedArr = SortArrBI_new (max (efSearch ix) (GetK query));
                  d = DistanceObjLeft query (node_data cn);
                  sortedArr1 = push_unsorted_grow d currNode sortedArr
              in if \<not> node_id cn < length (ElList ix)
                 then Inl (CheckFailed ''nodeId < ElList_.size()'')
                 else Inr \<lparr>v1_visited = (replicate (length (ElList ix)) False)[node_id cn := True],
                           v1_sortedArr = sortedArr1,
                           v1_currElem = 0,
                           v1_itemBuff = [],
                           v1_query = query,
                           v1_evaluated = [currNode],
                           v1_iters = 0\<rparr>)))"

definition SearchV1Merge_body ::
  "'d::linorder SmallWorldRand \<Rightarrow> 'd KNNQuery \<Rightarrow> error + 'd v1_state" where
  "SearchV1Merge_body ix query =
     (case v1_init ix query of
        Inl e \<Rightarrow> Inl e
      | Inr s \<Rightarrow> v1_loop (heap ix) (efSearch ix) (length (ElList ix)) s)"

definition SearchV1Merge ::
  "'d::linorder SmallWorldRand \<Rightarrow> 'd KNNQuery \<Rightarrow> error + 'd KNNQuery" where
  "SearchV1Merge ix query =
     (if ElList ix = [] then Inr query
      else case SearchV1Merge_body ix query of
             Inl e \<Rightarrow> Inl e
           | Inr s \<Rightarrow>
              v1_emit (heap ix) (take (GetK query) (items (v1_sortedArr s))) (v1_query s))"

text \<open>Lines 363 to 371: the two \<^verbatim>\<open>Search\<close> entry points.\<close>

definition Search_range :: "'d SmallWorldRand \<Rightarrow> error + unit" where
  "Search_range ix = Inl (RuntimeError ''Range search is not supported!'')"

definition Search :: "'d::linorder SmallWorldRand \<Rightarrow> 'd KNNQuery \<Rightarrow> error + 'd KNNQuery" where
  "Search ix query =
     (if searchAlgoType ix = kV1Merge then SearchV1Merge ix query else SearchOld ix query)"

section \<open>Saving and loading\<close>

text \<open>
  The file is a list of lines.  A line written by \<^verbatim>\<open>WriteField\<close> is a \<open>FieldLine\<close> with
  the name and the value of the field; any other line is the list of the tokens that
  the extraction operator \<^verbatim>\<open>>>\<close> reads from it, an integer or a single character, so the
  empty line is \<open>EntryLine []\<close>.  An integer token is a value of the 32-bit \<^verbatim>\<open>IdType\<close>:
  a numeral outside its range is not a token here.  Opening the file always succeeds.
\<close>

datatype fvalue = VStr string | VNat nat

datatype token = TInt int | TChar char

datatype line = FieldLine string fvalue | EntryLine "token list"

text \<open>
  The string constants are declared outside the sources; nothing below depends on
  their values.
\<close>

definition METHOD_DESC :: string where
  "METHOD_DESC = ''MethodDesc''"

definition LINE_QTY :: string where
  "LINE_QTY = ''LineQty''"

definition StrDesc :: string where
  "StrDesc = ''small_world_rand''"

definition DATA_MUTATION_ERROR_MSG :: string where
  "DATA_MUTATION_ERROR_MSG = ''A previously saved index is apparently used with a different data set''"

text \<open>
  Modelled from the spec: \<^verbatim>\<open>ReadField\<close>, which is not among the sources, reads the
  next line, which has to be the field of the given name, and yields its value.
\<close>

fun ReadField :: "string \<Rightarrow> line list \<Rightarrow> error + (fvalue \<times> line list)" where
  "ReadField name [] = Inl (RuntimeError ''Error reading a field value'')"
| "ReadField name (FieldLine nm v # rest) =
     (if nm = name then Inr (v, rest) else Inl (RuntimeError ''Wrong field name''))"
| "ReadField name (EntryLine ts # rest) = Inl (RuntimeError ''Wrong field format'')"

definition ReadField_nat :: "string \<Rightarrow> line list \<Rightarrow> error + (nat \<times> line list)" where
  "ReadField_nat name f =
     (case ReadField name f of
        Inl e \<Rightarrow> Inl e
      | Inr (VNat n, rest) \<Rightarrow> Inr (n, rest)
      | Inr (VStr t, rest) \<Rightarrow> Inl (RuntimeError ''Cannot convert the field value''))"

definition ReadField_str :: "string \<Rightarrow> line list \<Rightarrow> error + (string \<times> line list)" where
  "ReadField_str name f =
     (case ReadField name f of
        Inl e \<Rightarrow> Inl e
      | Inr (VStr t, rest) \<Rightarrow> Inr (t, rest)
      | Inr (VNat n, rest) \<Rightarrow> Inl (RuntimeError ''Cannot convert the field value''))"

text \<open>Lines 590 to 597: the ids of the friends of a node, each checked.\<close>

fun save_friends :: "MSWNode list \<Rightarrow> nat \<Rightarrow> ptr list \<Rightarrow> error + token list" where
  "save_friends h n [] = Inr []"
| "save_friends h n (pNodeFriend # rest) =
     (case deref h pNodeFriend of
        Inl e \<Rightarrow> Inl e
      | Inr fr \<Rightarrow>
         if \<not> node_id fr < n then Inl (CheckFailed ''Bug: unexpected node ID'')
         else (case save_friends h n rest of
                 Inl e \<Rightarrow> Inl e
               | Inr ts \<Rightarrow> Inr (TInt (int (node_id fr)) # ts)))"

text \<open>Lines 582 to 599: one line for each entry of the node table, in its order.\<close>

fun save_nodes ::
  "MSWNode list \<Rightarrow> nat \<Rightarrow> (int \<times> ptr) list \<Rightarrow> nat \<Rightarrow> error + (line list \<times> nat)" where
  "save_nodes h n [] lineNum = Inr ([], lineNum)"
| "save_nodes h n (it # rest) lineNum =
     (case deref h (snd it) of
        Inl e \<Rightarrow> Inl e
      | Inr pNode \<Rightarrow>
         if \<not> node_id pNode < n then Inl (CheckFailed ''Bug: unexpected node ID'')
         else
           (case save_friends h n (friends pNode) of
              Inl e \<Rightarrow> Inl e
            | Inr ts \<Rightarrow>
               (case save_nodes h n rest (lineNum + 1) of
                  Inl e \<Rightarrow> Inl e
                | Inr (ls, lineNum') \<Rightarrow>
                   Inr (EntryLine ([TInt (int (node_id pNode)), TChar CHR '':'',
                                    TInt (obj_id (node_data pNode)), TChar CHR '':''] @ ts) # ls,
                        lineNum'))))"

text \<open>\<^verbatim>\<open>SaveIndex\<close>, lines 572 to 603; the result is the content of the file.\<close>

definition SaveIndex :: "'d SmallWorldRand \<Rightarrow> error + line list" where
  "SaveIndex ix =
     (case save_nodes (heap ix) (length (data ix)) (ElList ix) 2 of
        Inl e \<Rightarrow> Inl e
      | Inr (ls, lineNum) \<Rightarrow>
         Inr ([FieldLine METHOD_DESC (VStr StrDesc), FieldLine ''NN'' (VNat (NN ix))] @ ls @
              [EntryLine [], FieldLine LINE_QTY (VNat ((lineNum + 1) + 1))]))"

text \<open>Lines 656 to 668: the friend ids of a line, read in the second pass.\<close>

fun load_friends ::
  "nat \<Rightarrow> ptr option list \<Rightarrow> ptr \<Rightarrow> token list \<Rightarrow> MSWNode list \<Rightarrow> error + MSWNode list" where
  "load_friends n ptrMapper pNode (TInt nodeFriendID # rest) h =
     (if \<not> (nodeFriendID \<ge> 0 \<and> nodeFriendID < int n)
      then Inl (CheckFailed ''Bug: unexpected node ID'')
      else (case ptrMapper ! nat nodeFriendID of
              None \<Rightarrow> Inl (CheckFailed ''Bug, got NULL pointer in the second pass'')
            | Some pFriendNode \<Rightarrow>
               load_friends n ptrMapper pNode rest (addFriend pNode pFriendNode h)))"
| "load_friends n ptrMapper pNode [] h = Inr h"
| "load_friends n ptrMapper pNode (TChar c # rest) h =
     Inl (CheckFailed ''It looks like there is some extract erroneous stuff in the end of the line'')"

text \<open>The state of \<^verbatim>\<open>LoadIndex\<close> inside a pass.\<close>

record 'd load_state =
  ld_index :: "'d SmallWorldRand"
  ld_ptrMapper :: "ptr option list"
  ld_lineNum :: nat

text \<open>
  The order in which the arguments of one function call are evaluated, which the
  language leaves to the compiler.
\<close>

datatype arg_order = LeftToRight | RightToLeft

text \<open>
  A \<^verbatim>\<open>unique_ptr<MSWNode>\<close> is the pointer it owns, or \<open>None\<close> once \<^verbatim>\<open>release()\<close> has
  taken the pointer out of it.  \<^verbatim>\<open>operator->\<close> of an empty one is undefined.
\<close>

definition unique_ptr_arrow :: "MSWNode list \<Rightarrow> ptr option \<Rightarrow> error + MSWNode" where
  "unique_ptr_arrow h node =
     (case node of
        None \<Rightarrow> Inl (UndefinedBehaviour ''operator-> of an empty unique_ptr'')
      | Some p \<Rightarrow> deref h p)"

text \<open>
  Lines 628 to 670: one line that is not empty.  In the first pass, line 651 is
  \<^verbatim>\<open>ElList_.insert(make_pair(node->getData()->id(), node.release()))\<close>: the two arguments
  of \<^verbatim>\<open>make_pair\<close> are evaluated in either order.  From left to right, the key is read
  through \<open>node\<close> while it owns the new node; from right to left, \<^verbatim>\<open>release()\<close> has emptied
  \<open>node\<close> before the key is read through it.
\<close>

definition load_entry ::
  "arg_order \<Rightarrow> nat \<Rightarrow> token list \<Rightarrow> 'd load_state \<Rightarrow> error + 'd load_state" where
  "load_entry ord pass ts st =
     (case ts of
        TInt nodeID # TChar c1 # TInt objID # TChar c2 # rest \<Rightarrow>
          let ix = ld_index st in
          if \<not> (c1 = CHR '':'' \<and> c2 = CHR '':'')
          then Inl (CheckFailed ''Bug or inconsitent data, wrong format'')
          else if \<not> (nodeID \<ge> 0 \<and> nodeID < int (length (data ix)))
          then Inl (CheckFailed (DATA_MUTATION_ERROR_MSG @ '' (unexpected node ID)''))
          else if \<not> obj_id (data ix ! nat nodeID) = objID
          then Inl (CheckFailed (DATA_MUTATION_ERROR_MSG @ '' (unexpected object ID)''))
          else if pass = 0 then
            (case new_MSWNode (data ix ! nat nodeID) (nat nodeID) (heap ix) of
               (p, h) \<Rightarrow>
                 let node = Some p;
                     ptrMapper = (ld_ptrMapper st)[nat nodeID := node];
                     released = p
                 in case unique_ptr_arrow h
                           (case ord of LeftToRight \<Rightarrow> node | RightToLeft \<Rightarrow> None) of
                      Inl e \<Rightarrow> Inl e
                    | Inr n \<Rightarrow>
                       Inr (st\<lparr>ld_index := ix\<lparr>heap := h,
                                                ElList := ElList_insert (obj_id (node_data n))
                                                            released (ElList ix)\<rparr>,
                               ld_ptrMapper := ptrMapper,
                               ld_lineNum := ld_lineNum st + 1\<rparr>))
          else
            (case ld_ptrMapper st ! nat nodeID of
               None \<Rightarrow> Inl (CheckFailed ''Bug, got NULL pointer in the second pass'')
             | Some pNode \<Rightarrow>
                (case load_friends (length (data ix)) (ld_ptrMapper st) pNode rest (heap ix) of
                   Inl e \<Rightarrow> Inl e
                 | Inr h \<Rightarrow> Inr (st\<lparr>ld_index := ix\<lparr>heap := h\<rparr>,
                                      ld_lineNum := ld_lineNum st + 1\<rparr>)))
      | _ \<Rightarrow> Inl (CheckFailed ''Bug or inconsitent data, wrong format''))"

text \<open>
  Lines 624 to 671: the \<^verbatim>\<open>getline\<close> loop.  It ends at the end of the file or after an
  empty line; the lines that are left are returned.
\<close>

fun load_lines ::
  "arg_order \<Rightarrow> nat \<Rightarrow> line list \<Rightarrow> 'd load_state \<Rightarrow> error + ('d load_state \<times> line list)" where
  "load_lines ord pass [] st = Inr (st, [])"
| "load_lines ord pass (EntryLine [] # rest) st =
     Inr (st\<lparr>ld_lineNum := ld_lineNum st + 1\<rparr>, rest)"
| "load_lines ord pass (EntryLine (t # ts) # rest) st =
     (case load_entry ord pass (t # ts) st of
        Inl e \<Rightarrow> Inl e
      | Inr st' \<Rightarrow> load_lines ord pass rest st')"
| "load_lines ord pass (FieldLine nm v # rest) st =
     Inl (CheckFailed ''Bug or inconsitent data, wrong format'')"

text \<open>Lines 610 to 678: one pass over the file.\<close>

definition load_pass ::
  "arg_order \<Rightarrow> nat \<Rightarrow> line list \<Rightarrow> 'd SmallWorldRand \<times> ptr option list \<Rightarrow>
   error + ('d SmallWorldRand \<times> ptr option list)" where
  "load_pass ord pass inFile st =
     (case ReadField_str METHOD_DESC inFile of
        Inl e \<Rightarrow> Inl e
      | Inr (methDesc, f1) \<Rightarrow>
         if methDesc \<noteq> StrDesc
         then Inl (CheckFailed ''Looks like you try to use an index created by a different method'')
         else
           (case ReadField_nat ''NN'' f1 of
              Inl e \<Rightarrow> Inl e
            | Inr (nn, f2) \<Rightarrow>
               (case load_lines ord pass f2
                       \<lparr>ld_index = (fst st)\<lparr>NN := nn\<rparr>, ld_ptrMapper = snd st, ld_lineNum = 3\<rparr> of
                  Inl e \<Rightarrow> Inl e
                | Inr (st', f3) \<Rightarrow>
                   (case ReadField_nat LINE_QTY f3 of
                      Inl e \<Rightarrow> Inl e
                    | Inr (ExpLineNum, f4) \<Rightarrow>
                       if ld_lineNum st' \<noteq> ExpLineNum
                       then Inl (CheckFailed (DATA_MUTATION_ERROR_MSG @ '' (expected number of lines)''))
                       else Inr (ld_index st', ld_ptrMapper st')))))"

text \<open>
  \<^verbatim>\<open>LoadIndex\<close>, lines 605 to 680: two passes over the same file.  \<open>ord\<close> is the order
  of evaluation that the compiler chose at line 651.
\<close>

definition LoadIndex ::
  "arg_order \<Rightarrow> 'd SmallWorldRand \<Rightarrow> line list \<Rightarrow> error + 'd SmallWorldRand" where
  "LoadIndex ord ix inFile =
     (case load_pass ord 0 inFile (ix, replicate (length (data ix)) None) of
        Inl e \<Rightarrow> Inl e
      | Inr st0 \<Rightarrow>
         (case load_pass ord 1 inFile st0 of
            Inl e \<Rightarrow> Inl e
          | Inr st1 \<Rightarrow> Inr (fst st1)))"

section \<open>Invariants of the searches\<close>

text \<open>
  \<open>marked h vis ps\<close>: the nodes \<open>ps\<close> are nodes of the store with pairwise different
  internal ids, and the bit of each of these ids is set in \<open>vis\<close>.  It holds of the visited
  bitset and the nodes whose distance was computed, all through the three searches.
\<close>

definition so_offer :: "MSWNode list \<Rightarrow> 'd KNNQuery \<Rightarrow> ptr \<Rightarrow> 'd \<times> Object" where
  "so_offer h q p = (DistanceObjLeft q (node_data (h ! p)), node_data (h ! p))"

definition marked :: "MSWNode list \<Rightarrow> bool list \<Rightarrow> ptr list \<Rightarrow> bool" where
  "marked h vis ps \<longleftrightarrow>
     (\<forall>p \<in> set ps. p < length h \<and> node_id (h ! p) < length vis \<and> vis ! node_id (h ! p)) \<and>
     distinct (map (\<lambda>p. node_id (h ! p)) ps)"

lemma marked_snoc:
  assumes "marked h vis ps" "p < length h" "node_id (h ! p) < length vis" "\<not> vis ! node_id (h ! p)"
  shows "marked h (vis[node_id (h ! p) := True]) (ps @ [p])"
proof -
  from assms have "node_id (h ! p) \<notin> (\<lambda>p. node_id (h ! p)) ` set ps"
    by (auto simp: marked_def)
  with assms show ?thesis
    by (auto simp: marked_def nth_list_update)
qed

lemma marked_length:
  assumes "marked h vis ps"
  shows "length ps \<le> length vis"
proof -
  from assms have d: "distinct (map (\<lambda>p. node_id (h ! p)) ps)"
    and s: "set (map (\<lambda>p. node_id (h ! p)) ps) \<subseteq> {..<length vis}"
    by (auto simp: marked_def)
  from d have "length ps = card (set (map (\<lambda>p. node_id (h ! p)) ps))"
    by (metis distinct_card length_map)
  also from s have "\<dots> \<le> card {..<length vis}"
    by (intro card_mono) auto
  finally show ?thesis by simp
qed

definition so_inv :: "MSWNode list \<Rightarrow> 'd KNNQuery \<Rightarrow> 'd so_state \<Rightarrow> bool" where
  "so_inv h q0 s \<longleftrightarrow>
     offered (so_query s) = offered q0 @ map (so_offer h q0) (so_evaluated s) \<and>
     DistanceObjLeft (so_query s) = DistanceObjLeft q0 \<and>
     marked h (so_visited s) (so_evaluated s) \<and>
     so_iters s + length (so_candidates s) \<le> length (so_evaluated s)"

lemma so_neighbors_inv:
  "so_inv h q0 s \<Longrightarrow> so_neighbors h efs n ps s = Inr s' \<Longrightarrow>
   so_inv h q0 s' \<and> length (so_visited s') = length (so_visited s)"
proof (induction ps arbitrary: s)
  case Nil
  then show ?case by simp
next
  case (Cons p ps)
  from Cons.prems obtain nb where nb: "deref h p = Inr nb"
    by (auto split: sum.splits)
  then have p: "p < length h" "nb = h ! p"
    by (auto simp: deref_def split: if_splits)
  from Cons.prems nb have rng: "node_id nb < length (so_visited s)"
    by (auto split: if_splits)
  show ?case
  proof (cases "so_visited s ! node_id nb")
    case True
    with Cons.prems nb rng have "so_neighbors h efs n ps s = Inr s'"
      by (auto split: if_splits)
    from Cons.IH [OF Cons.prems(1) this] show ?thesis .
  next
    case False
    define d where "d = DistanceObjLeft (so_query s) (node_data nb)"
    from False Cons.prems nb rng obtain s3 where
      run: "so_neighbors h efs n ps s3 = Inr s'" and
      vis: "so_visited s3 = (so_visited s)[node_id nb := True]" and
      ev: "so_evaluated s3 = so_evaluated s @ [p]" and
      it: "so_iters s3 = so_iters s" and
      ca: "length (so_candidates s3) \<le> Suc (length (so_candidates s))" and
      qu: "so_query s3 = CheckAndAddToResult d (node_data nb) (so_query s)"
      by (auto simp: Let_def d_def split: if_splits sum.splits)
    from Cons.prems(1) have m: "marked h (so_visited s) (so_evaluated s)"
      by (simp add: so_inv_def)
    from marked_snoc [OF m p(1)] rng False p(2)
    have m3: "marked h (so_visited s3) (so_evaluated s3)"
      by (simp add: vis ev)
    from Cons.prems(1) m3 ca have "so_inv h q0 s3"
      by (simp add: so_inv_def ev it qu CheckAndAddToResult_def so_offer_def d_def p(2))
    from Cons.IH [OF this run] vis show ?thesis by simp
  qed
qed

lemma so_loop_inv:
  "so_inv h q0 s \<Longrightarrow> so_loop h efs n s = Inr s' \<Longrightarrow>
   so_inv h q0 s' \<and> length (so_visited s') = length (so_visited s)"
proof (induction h efs n s rule: so_loop.induct)
  case (1 h efs n s)
  show ?case
  proof (cases "so_candidates s")
    case Nil
    with "1.prems" show ?thesis by (simp add: so_loop.simps [of h efs n s])
  next
    case (Cons currEv cands)
    with "1.prems"(2) obtain t ts where cl: "so_closest s = t # ts"
      by (auto simp: so_loop.simps [of h efs n s] split: list.splits)
    show ?thesis
    proof (cases "fst currEv > t")
      case True
      with Cons cl "1.prems" show ?thesis by (simp add: so_loop.simps [of h efs n s])
    next
      case False
      with Cons cl "1.prems"(2) obtain currNode s1 where
        dr: "deref h (snd currEv) = Inr currNode" and
        nb: "so_neighbors h efs n (friends currNode)
               (s\<lparr>so_candidates := cands, so_iters := Suc (so_iters s)\<rparr>) = Inr s1" and
        lp: "so_loop h efs n s1 = Inr s'"
        by (auto simp: so_loop.simps [of h efs n s] split: sum.splits)
      from "1.prems"(1) Cons
      have "so_inv h q0 (s\<lparr>so_candidates := cands, so_iters := Suc (so_iters s)\<rparr>)"
        by (simp add: so_inv_def)
      from so_neighbors_inv [OF this nb]
      have i1: "so_inv h q0 s1" and l1: "length (so_visited s1) = length (so_visited s)"
        by simp_all
      from "1.IH" [OF Cons cl False dr nb i1 lp] l1 show ?thesis by simp
    qed
  qed
qed

lemma SearchOld_body_inv:
  assumes "SearchOld_body ix q = Inr s"
  shows "so_inv (heap ix) q s \<and> length (so_visited s) = length (ElList ix)"
proof -
  from assms obtain provider pn where
    ep: "pEntryPoint ix = Some provider" and dr: "deref (heap ix) provider = Inr pn" and
    rng: "node_id pn < length (ElList ix)"
    by (auto simp: SearchOld_body_def Let_def split: if_splits option.splits sum.splits)
  define s0 :: "'a so_state" where "s0 =
     \<lparr>so_visited = (replicate (length (ElList ix)) False)[node_id pn := True],
      so_closest = [DistanceObjLeft q (node_data pn)],
      so_candidates = [(DistanceObjLeft q (node_data pn), provider)],
      so_query = CheckAndAddToResult (DistanceObjLeft q (node_data pn)) (node_data pn) q,
      so_evaluated = [provider],
      so_iters = 0\<rparr>"
  from assms ep dr rng have lp: "so_loop (heap ix) (efSearch ix) (length (ElList ix)) s0 = Inr s"
    by (auto simp: SearchOld_body_def Let_def s0_def split: if_splits)
  from dr have p: "provider < length (heap ix)" "pn = heap ix ! provider"
    by (auto simp: deref_def split: if_splits)
  from rng p have "so_inv (heap ix) q s0"
    by (simp add: so_inv_def s0_def marked_def CheckAndAddToResult_def so_offer_def)
  from so_loop_inv [OF this lp] show ?thesis by (simp add: s0_def)
qed

lemma marked_init:
  "i < n \<Longrightarrow> p < length h \<Longrightarrow> node_id (h ! p) = i \<Longrightarrow>
   marked h ((replicate n False)[i := True]) [p]"
  by (simp add: marked_def)

definition sfi_inv :: "MSWNode list \<Rightarrow> 'd sfi_state \<Rightarrow> bool" where
  "sfi_inv h s \<longleftrightarrow>
     marked h (sfi_visited s) (sfi_evaluated s) \<and>
     sfi_iters s + length (sfi_candidates s) \<le> length (sfi_evaluated s) \<and>
     (\<forall>x \<in> set (sfi_result s). snd x < length h)"

lemma sfi_neighbors_inv:
  "sfi_inv h s \<Longrightarrow> sfi_neighbors h dist nn efc m ps s = Inr s' \<Longrightarrow>
   sfi_inv h s' \<and> length (sfi_visited s') = length (sfi_visited s)"
proof (induction ps arbitrary: s)
  case Nil
  then show ?case by simp
next
  case (Cons p ps)
  from Cons.prems obtain nb where nb: "deref h p = Inr nb"
    by (auto split: sum.splits)
  then have p: "p < length h" "nb = h ! p"
    by (auto simp: deref_def split: if_splits)
  from Cons.prems nb have rng: "node_id nb < length (sfi_visited s)"
    by (auto split: if_splits)
  show ?case
  proof (cases "sfi_visited s ! node_id nb")
    case True
    with Cons.prems nb rng have "sfi_neighbors h dist nn efc m ps s = Inr s'"
      by (auto split: if_splits)
    from Cons.IH [OF Cons.prems(1) this] show ?thesis .
  next
    case False
    define d where "d = dist (node_data nb)"
    define s1 where "s1 = s\<lparr>sfi_visited := (sfi_visited s)[node_id nb := True],
                             sfi_evaluated := sfi_evaluated s @ [p]\<rparr>"
    from False Cons.prems(2) nb rng obtain a where a: "admits efc d (sfi_closest s1) = Inr a"
      by (auto simp: Let_def d_def s1_def split: if_splits sum.splits)
    define s2 where "s2 = (if a then s1\<lparr>sfi_closest := trim efc (pq_push_max (\<lambda>x. x) d (sfi_closest s1)),
                                       sfi_candidates := pq_push_min fst (d, p) (sfi_candidates s1)\<rparr>
                          else s1)"
    from False Cons.prems(2) nb rng a obtain b where b: "admits nn d (map fst (sfi_result s2)) = Inr b"
      by (auto simp: Let_def d_def s1_def s2_def split: if_splits sum.splits)
    define s3 where "s3 = (if b then s2\<lparr>sfi_result := trim nn (pq_push_max fst (d, p) (sfi_result s2))\<rparr>
                          else s2)"
    from False Cons.prems(2) nb rng a b have run: "sfi_neighbors h dist nn efc m ps s3 = Inr s'"
      by (auto simp: Let_def d_def s1_def s2_def s3_def split: if_splits)
    have vis: "sfi_visited s3 = (sfi_visited s)[node_id nb := True]"
      and ev: "sfi_evaluated s3 = sfi_evaluated s @ [p]"
      and it: "sfi_iters s3 = sfi_iters s"
      and ca: "length (sfi_candidates s3) \<le> Suc (length (sfi_candidates s))"
      by (simp_all add: s3_def s2_def s1_def)
    have re: "set (sfi_result s3) \<subseteq> insert (d, p) (set (sfi_result s))"
      using set_trim [of nn "pq_push_max fst (d, p) (sfi_result s)"]
      by (auto simp: s3_def s2_def s1_def)
    from Cons.prems(1) have m: "marked h (sfi_visited s) (sfi_evaluated s)"
      by (simp add: sfi_inv_def)
    from marked_snoc [OF m p(1)] rng False p(2)
    have m3: "marked h (sfi_visited s3) (sfi_evaluated s3)"
      by (simp add: vis ev)
    from Cons.prems(1) re p(1) have "\<forall>x \<in> set (sfi_result s3). snd x < length h"
      by (auto simp: sfi_inv_def)
    with Cons.prems(1) m3 ca have "sfi_inv h s3"
      by (simp add: sfi_inv_def ev it)
    from Cons.IH [OF this run] vis show ?thesis by simp
  qed
qed

lemma sfi_loop_inv:
  "sfi_inv h s \<Longrightarrow> sfi_loop h dist nn efc m s = Inr s' \<Longrightarrow>
   sfi_inv h s' \<and> length (sfi_visited s') = length (sfi_visited s)"
proof (induction h dist nn efc m s rule: sfi_loop.induct)
  case (1 h dist nn efc m s)
  show ?case
  proof (cases "sfi_candidates s")
    case Nil
    with "1.prems" show ?thesis by (simp add: sfi_loop.simps [of h dist nn efc m s])
  next
    case (Cons currEv cands)
    with "1.prems"(2) obtain t ts where cl: "sfi_closest s = t # ts"
      by (auto simp: sfi_loop.simps [of h dist nn efc m s] split: list.splits)
    show ?thesis
    proof (cases "fst currEv > t")
      case True
      with Cons cl "1.prems" show ?thesis by (simp add: sfi_loop.simps [of h dist nn efc m s])
    next
      case False
      with Cons cl "1.prems"(2) obtain currNode s1 where
        dr: "deref h (snd currEv) = Inr currNode" and
        nb: "sfi_neighbors h dist nn efc m (friends currNode)
               (s\<lparr>sfi_candidates := cands, sfi_iters := Suc (sfi_iters s)\<rparr>) = Inr s1" and
        lp: "sfi_loop h dist nn efc m s1 = Inr s'"
        by (auto simp: sfi_loop.simps [of h dist nn efc m s] split: sum.splits)
      from "1.prems"(1) Cons
      have "sfi_inv h (s\<lparr>sfi_candidates := cands, sfi_iters := Suc (sfi_iters s)\<rparr>)"
        by (simp add: sfi_inv_def)
      from sfi_neighbors_inv [OF this nb]
      have i1: "sfi_inv h s1" and l1: "length (sfi_visited s1) = length (sfi_visited s)"
        by simp_all
      from "1.IH" [OF Cons cl False dr nb i1 lp] l1 show ?thesis by simp
    qed
  qed
qed

lemma searchForIndexing_inv:
  assumes "searchForIndexing ix queryObj resultSet maxInternalId = Inr s"
    and "\<forall>x \<in> set resultSet. snd x < length (heap ix)"
  shows "sfi_inv (heap ix) s \<and> length (sfi_visited s) = maxInternalId + 1"
proof -
  from assms obtain provider pn where
    ep: "pEntryPoint ix = Some provider" and dr: "deref (heap ix) provider = Inr pn" and
    rng: "node_id pn \<le> maxInternalId"
    by (auto simp: searchForIndexing_def Let_def split: if_splits option.splits sum.splits)
  define d where "d = index_dist ix (node_data pn) queryObj"
  define s0 :: "'a sfi_state" where "s0 =
     \<lparr>sfi_visited = (replicate (maxInternalId + 1) False)[node_id pn := True],
      sfi_closest = trim (efConstruction ix) [d],
      sfi_candidates = [(d, provider)],
      sfi_result = trim (NN ix) (pq_push_max fst (d, provider) resultSet),
      sfi_evaluated = [provider],
      sfi_iters = 0\<rparr>"
  from assms ep dr rng
  have lp: "sfi_loop (heap ix) (\<lambda>a. index_dist ix a queryObj) (NN ix) (efConstruction ix)
              maxInternalId s0 = Inr s"
    by (auto simp: searchForIndexing_def Let_def s0_def d_def split: if_splits)
  from dr have p: "provider < length (heap ix)" "pn = heap ix ! provider"
    by (auto simp: deref_def split: if_splits)
  have "set (sfi_result s0) \<subseteq> insert (d, provider) (set resultSet)"
    using set_trim [of "NN ix" "pq_push_max fst (d, provider) resultSet"] by (simp add: s0_def)
  with assms(2) p(1) have "\<forall>x \<in> set (sfi_result s0). snd x < length (heap ix)"
    by auto
  moreover have "marked (heap ix) ((replicate (maxInternalId + 1) False)[node_id pn := True])
      [provider]"
    by (rule marked_init) (use rng p in auto)
  then have "marked (heap ix) (sfi_visited s0) (sfi_evaluated s0)"
    by (simp add: s0_def del: replicate.simps)
  ultimately have "sfi_inv (heap ix) s0"
    by (simp add: sfi_inv_def) (simp add: s0_def)
  from sfi_loop_inv [OF this lp] show ?thesis
    by (simp add: s0_def del: replicate.simps)
qed

definition buf_ok :: "'d::linorder SortArrBI \<Rightarrow> nat \<Rightarrow> bool" where
  "buf_ok arr cur \<longleftrightarrow>
     sorted (map item_key (items arr)) \<and> length (items arr) \<le> max_elem arr \<and>
     cur \<le> length (items arr) \<and> (\<forall>i<cur. item_used (items arr ! i))"

lemma unused_append [simp]: "unused (xs @ ys) = unused xs + unused ys"
  by (simp add: unused_def)

lemma unused_Cons [simp]: "unused (x # xs) = (if item_used x then 0 else 1) + unused xs"
  by (simp add: unused_def)

lemma unused_Nil [simp]: "unused [] = 0"
  by (simp add: unused_def)

lemma unused_le_length: "unused xs \<le> length xs"
  by (simp add: unused_def)

lemma unused_take: "unused (take n xs) \<le> unused xs"
proof -
  have "unused xs = unused (take n xs) + unused (drop n xs)"
    by (metis append_take_drop_id unused_append)
  then show ?thesis by simp
qed

lemma sorted_insert_pos:
  fixes f :: "'a \<Rightarrow> 'k::linorder"
  shows "sorted (map f xs) \<Longrightarrow>
         sorted (map f (takeWhile (\<lambda>e. f e \<le> f x) xs @ x # dropWhile (\<lambda>e. f e \<le> f x) xs))"
proof (induction xs)
  case Nil
  then show ?case by simp
next
  case (Cons a xs)
  show ?case
  proof (cases "f a \<le> f x")
    case True
    from Cons.prems have "\<forall>y \<in> set xs. f a \<le> f y" by auto
    then have "\<forall>y \<in> set (takeWhile (\<lambda>e. f e \<le> f x) xs @ x # dropWhile (\<lambda>e. f e \<le> f x) xs).
                 f a \<le> f y"
      using True by (auto dest: set_takeWhileD set_dropWhileD)
    with Cons True show ?thesis by auto
  next
    case False
    with Cons.prems show ?thesis by auto
  qed
qed

lemma push_or_replace_ok:
  assumes ok: "buf_ok arr cur"
    and run: "push_or_replace_non_empty_exp k x arr = (pos, arr')"
  shows "buf_ok arr' (if pos < cur then pos else cur) \<and> max_elem arr' = max_elem arr \<and>
         unused (items arr') \<le> Suc (unused (items arr)) \<and>
         set (items arr') \<subseteq> insert (QueueItem k x) (set (items arr))"
proof (cases "length (items arr) \<ge> max_elem arr \<and> \<not> below_top k (top_key arr)")
  case True
  with run have "pos = length (items arr)" "arr' = arr"
    by (auto simp: push_or_replace_non_empty_exp_def)
  with ok show ?thesis by (auto simp: buf_ok_def)
next
  case False
  define xs where "xs = items arr"
  define new where "new = QueueItem k x"
  define P where "P = (\<lambda>e :: 'a Item. item_key e \<le> k)"
  define ys where "ys = takeWhile P xs @ new # dropWhile P xs"
  have k: "item_key new = k" by (simp add: new_def QueueItem_def)
  have tk: "take (length (takeWhile P xs)) xs = takeWhile P xs"
    by (rule takeWhile_eq_take [symmetric])
  have dk: "drop (length (takeWhile P xs)) xs = dropWhile P xs"
    by (rule dropWhile_eq_drop [symmetric])
  have "push_or_replace_non_empty_exp k x arr =
          (length (takeWhile P xs),
           arr\<lparr>items := take (max_elem arr)
                  (take (length (takeWhile P xs)) xs @ [new] @
                   drop (length (takeWhile P xs)) xs)\<rparr>)"
    unfolding push_or_replace_non_empty_exp_def Let_def xs_def new_def P_def
    using False by (simp only: if_False)
  then have "push_or_replace_non_empty_exp k x arr =
          (length (takeWhile P xs), arr\<lparr>items := take (max_elem arr) ys\<rparr>)"
    unfolding tk dk ys_def by simp
  with run have pos: "pos = length (takeWhile P xs)"
    and arr': "arr' = arr\<lparr>items := take (max_elem arr) ys\<rparr>"
    by simp_all
  from ok have so: "sorted (map item_key xs)" and le: "length xs \<le> max_elem arr"
    and cur: "cur \<le> length xs" and us: "\<forall>i<cur. item_used (xs ! i)"
    by (simp_all add: buf_ok_def xs_def)
  have "sorted (map item_key ys)"
    using sorted_insert_pos [OF so, of new] by (simp add: ys_def P_def k)
  then have s': "sorted (map item_key (take (max_elem arr) ys))"
    by (simp add: take_map [symmetric] sorted_wrt_take)
  have ly: "length ys = Suc (length xs)"
  proof -
    have "length (takeWhile P xs) + length (dropWhile P xs) = length xs"
      by (metis length_append takeWhile_dropWhile_id)
    then show ?thesis by (simp add: ys_def)
  qed
  have pl: "pos \<le> length xs" by (simp add: pos length_takeWhile_le)
  define c where "c = (if pos < cur then pos else cur)"
  have c: "c \<le> pos" "c \<le> cur" by (simp_all add: c_def)
  have pre: "\<forall>i<c. take (max_elem arr) ys ! i = xs ! i"
  proof (intro allI impI)
    fix i assume i: "i < c"
    with c pl le have "i < max_elem arr" "i < length (takeWhile P xs)" by (simp_all add: pos)
    then show "take (max_elem arr) ys ! i = xs ! i"
      by (simp add: ys_def nth_append takeWhile_nth)
  qed
  have "buf_ok arr' c"
    using s' ly le cur c us pre by (auto simp: buf_ok_def arr')
  moreover have "unused (take (max_elem arr) ys) \<le> Suc (unused xs)"
  proof -
    have "unused (takeWhile P xs) + unused (dropWhile P xs) = unused xs"
      by (metis takeWhile_dropWhile_id unused_append)
    then have "unused ys \<le> Suc (unused xs)" by (simp add: ys_def)
    with unused_take [of "max_elem arr" ys] show ?thesis by simp
  qed
  moreover have "set (take (max_elem arr) ys) \<subseteq> insert new (set xs)"
    by (auto simp: ys_def dest!: in_set_takeD dest: set_takeWhileD set_dropWhileD)
  ultimately show ?thesis
    by (simp add: arr' c_def xs_def new_def)
qed

lemma v1_push_all_ok:
  "buf_ok arr cur \<Longrightarrow> v1_push_all batch (arr, cur) = (arr', cur') \<Longrightarrow>
   buf_ok arr' cur' \<and> max_elem arr' = max_elem arr \<and>
   unused (items arr') \<le> unused (items arr) + length batch \<and>
   set (items arr') \<subseteq> set (items arr) \<union> (\<lambda>it. QueueItem (item_key it) (item_data it)) ` set batch"
proof (induction batch arbitrary: arr cur)
  case Nil
  then show ?case by simp
next
  case (Cons it rest)
  obtain pos arr1 where p: "push_or_replace_non_empty_exp (item_key it) (item_data it) arr = (pos, arr1)"
    by (cases "push_or_replace_non_empty_exp (item_key it) (item_data it) arr")
  with Cons.prems(2) have r: "v1_push_all rest (arr1, if pos < cur then pos else cur) = (arr', cur')"
    by simp
  from push_or_replace_ok [OF Cons.prems(1) p]
  have ok1: "buf_ok arr1 (if pos < cur then pos else cur)" and m1: "max_elem arr1 = max_elem arr"
    and u1: "unused (items arr1) \<le> Suc (unused (items arr))"
    and s1: "set (items arr1) \<subseteq> insert (QueueItem (item_key it) (item_data it)) (set (items arr))"
    by simp_all
  from Cons.IH [OF ok1 r] m1 u1 s1 show ?case by auto
qed

lemma merge_items_Nil2 [simp]: "merge_items xs [] = xs"
  by (cases xs) simp_all

lemma set_merge_items [simp]: "set (merge_items xs ys) = set xs \<union> set ys"
  by (induction xs ys rule: merge_items.induct) auto

lemma unused_merge_items [simp]: "unused (merge_items xs ys) = unused xs + unused ys"
  by (induction xs ys rule: merge_items.induct) auto

lemma sorted_merge_items:
  "sorted (map item_key xs) \<Longrightarrow> sorted (map item_key ys) \<Longrightarrow>
   sorted (map item_key (merge_items xs ys))"
  by (induction xs ys rule: merge_items.induct) auto

lemma merge_items_prefix:
  "i < length (takeWhile (\<lambda>e. item_key e \<le> item_key y) xs) \<Longrightarrow>
   merge_items xs (y # ys) ! i = xs ! i"
proof (induction xs arbitrary: i)
  case Nil
  then show ?case by simp
next
  case (Cons a xs)
  then show ?case by (cases i) (auto split: if_splits)
qed

lemma length_merge_items_ge: "length xs \<le> length (merge_items xs ys)"
  by (induction xs ys rule: merge_items.induct) auto

lemma merge_with_sorted_items_ok:
  assumes ok: "buf_ok arr cur"
    and sb: "sorted (map item_key batch)"
    and run: "merge_with_sorted_items batch arr = (pos, arr')"
  shows "buf_ok arr' (if pos < cur then pos else cur) \<and> max_elem arr' = max_elem arr \<and>
         unused (items arr') \<le> unused (items arr) + length batch"
proof -
  define xs where "xs = items arr"
  define m where "m = take (max_elem arr) (merge_items xs batch)"
  define c where "c = (if pos < cur then pos else cur)"
  from run have arr': "arr' = arr\<lparr>items := m\<rparr>"
    by (auto simp: merge_with_sorted_items_def Let_def m_def xs_def)
  from ok have so: "sorted (map item_key xs)" and le: "length xs \<le> max_elem arr"
    and cur: "cur \<le> length xs" and us: "\<forall>i<cur. item_used (xs ! i)"
    by (simp_all add: buf_ok_def xs_def)
  have lm: "length xs \<le> length m"
    using le length_merge_items_ge [of xs batch] by (simp add: m_def)
  have s': "sorted (map item_key m)"
    using sorted_merge_items [OF so sb] by (simp add: m_def take_map [symmetric] sorted_wrt_take)
  have c: "c \<le> cur" by (simp add: c_def)
  have pre: "\<forall>i<c. m ! i = xs ! i"
  proof (cases batch)
    case Nil
    with le show ?thesis by (simp add: m_def)
  next
    case (Cons y ys)
    with run have pos: "pos = min (length m) (length (takeWhile (\<lambda>e. item_key e \<le> item_key y) xs))"
      by (auto simp: merge_with_sorted_items_def Let_def m_def xs_def)
    show ?thesis
    proof (intro allI impI)
      fix i assume i: "i < c"
      with c cur le have im: "i < max_elem arr" by simp
      show "m ! i = xs ! i"
      proof (cases "i < length (takeWhile (\<lambda>e. item_key e \<le> item_key y) xs)")
        case True
        with im show ?thesis by (simp add: m_def Cons merge_items_prefix)
      next
        case False
        with i pos lm c cur have "cur \<le> pos" "pos < cur \<or> c = cur"
          by (auto simp: c_def split: if_splits)
        with i False pos show ?thesis by (auto simp: c_def split: if_splits)
      qed
    qed
  qed
  have cl: "c \<le> length m"
    using c cur lm by simp
  have "buf_ok arr' c"
    using s' cl us pre c by (auto simp: buf_ok_def arr' m_def)
  moreover have "unused m \<le> unused xs + length batch"
    using unused_take [of "max_elem arr" "merge_items xs batch"] unused_le_length [of batch]
    by (simp add: m_def)
  ultimately show ?thesis by (simp add: arr' c_def xs_def)
qed

lemma v1_insert_frame [simp]:
  "v1_evaluated (v1_insert s) = v1_evaluated s"
  "v1_iters (v1_insert s) = v1_iters s"
  "v1_query (v1_insert s) = v1_query s"
  by (simp_all add: v1_insert_def Let_def split: prod.splits)

lemma v1_insert_ok:
  assumes ok: "buf_ok (v1_sortedArr s) (v1_currElem s)"
  shows "buf_ok (v1_sortedArr (v1_insert s)) (v1_currElem (v1_insert s)) \<and>
         max_elem (v1_sortedArr (v1_insert s)) = max_elem (v1_sortedArr s) \<and>
         unused (items (v1_sortedArr (v1_insert s)))
           \<le> unused (items (v1_sortedArr s)) + length (v1_itemBuff s)"
proof (cases "v1_itemBuff s = []")
  case True
  with ok show ?thesis by (simp add: v1_insert_empty)
next
  case False
  define batch where "batch = sort_key item_key (v1_itemBuff s)"
  have sb: "sorted (map item_key batch)" and lb: "length batch = length (v1_itemBuff s)"
    by (simp_all add: batch_def)
  show ?thesis
  proof (cases "length batch > MERGE_BUFFER_ALGO_SWITCH_THRESHOLD")
    case True
    obtain pos arr' where m: "merge_with_sorted_items batch (v1_sortedArr s) = (pos, arr')"
      by (cases "merge_with_sorted_items batch (v1_sortedArr s)")
    with False True have "v1_insert s = s\<lparr>v1_sortedArr := arr',
        v1_currElem := (if pos < v1_currElem s then pos else v1_currElem s)\<rparr>"
      by (simp add: v1_insert_def Let_def batch_def)
    with merge_with_sorted_items_ok [OF ok sb m] lb show ?thesis by simp
  next
    case nm: False
    obtain arr' cur' where p: "v1_push_all batch (v1_sortedArr s, v1_currElem s) = (arr', cur')"
      by (cases "v1_push_all batch (v1_sortedArr s, v1_currElem s)")
    with False nm have "v1_insert s = s\<lparr>v1_sortedArr := arr', v1_currElem := cur'\<rparr>"
      by (simp add: v1_insert_def Let_def batch_def)
    with v1_push_all_ok [OF ok p] lb show ?thesis by simp
  qed
qed

lemma v1_skip_used_ok:
  "c \<le> length xs \<Longrightarrow> \<forall>i<c. item_used (xs ! i) \<Longrightarrow>
   c \<le> v1_skip_used xs c \<and> v1_skip_used xs c \<le> length xs \<and>
   (\<forall>i<v1_skip_used xs c. item_used (xs ! i)) \<and>
   (v1_skip_used xs c < length xs \<longrightarrow> \<not> item_used (xs ! v1_skip_used xs c))"
proof (induction xs c rule: v1_skip_used.induct)
  case (1 queueData currElem)
  show ?case
  proof (cases "currElem < length queueData \<and> item_used (queueData ! currElem)")
    case True
    then have "\<forall>i<Suc currElem. item_used (queueData ! i)"
      using "1.prems"(2) by (auto simp: less_Suc_eq)
    with "1.IH" [OF True] True show ?thesis
      by (simp add: v1_skip_used.simps [of queueData currElem])
  next
    case False
    with "1.prems" show ?thesis
      by (auto simp: v1_skip_used.simps [of queueData currElem])
  qed
qed

lemma v1_neighbors_inv:
  "marked h (v1_visited s) (v1_evaluated s) \<Longrightarrow>
   v1_neighbors h efs n sz topKey ps s = Inr s' \<Longrightarrow>
   marked h (v1_visited s') (v1_evaluated s') \<and> v1_query s' = v1_query s \<and>
   length (v1_itemBuff s') + length (v1_evaluated s)
     \<le> length (v1_itemBuff s) + length (v1_evaluated s')"
proof (induction ps arbitrary: s)
  case Nil
  then show ?case by simp
next
  case (Cons p ps)
  from Cons.prems obtain nb where nb: "deref h p = Inr nb"
    by (auto split: sum.splits)
  then have p: "p < length h" "nb = h ! p"
    by (auto simp: deref_def split: if_splits)
  from Cons.prems nb have rng: "node_id nb < length (v1_visited s)"
    by (auto split: if_splits)
  show ?case
  proof (cases "v1_visited s ! node_id nb")
    case True
    with Cons.prems nb rng have "v1_neighbors h efs n sz topKey ps s = Inr s'"
      by (auto split: if_splits)
    from Cons.IH [OF Cons.prems(1) this] show ?thesis .
  next
    case False
    define d where "d = DistanceObjLeft (v1_query s) (node_data nb)"
    define s1 where "s1 = s\<lparr>v1_visited := (v1_visited s)[node_id nb := True],
                             v1_evaluated := v1_evaluated s @ [p]\<rparr>"
    define s2 where "s2 = (if sz < efs \<or> below_top d topKey
                           then s1\<lparr>v1_itemBuff := v1_itemBuff s1 @ [QueueItem d p]\<rparr> else s1)"
    from False Cons.prems(2) nb rng have run: "v1_neighbors h efs n sz topKey ps s2 = Inr s'"
      by (auto simp: Let_def d_def s1_def s2_def split: if_splits)
    have vis: "v1_visited s2 = (v1_visited s)[node_id nb := True]"
      and ev: "v1_evaluated s2 = v1_evaluated s @ [p]"
      and qu: "v1_query s2 = v1_query s"
      and bu: "length (v1_itemBuff s2) \<le> Suc (length (v1_itemBuff s))"
      by (simp_all add: s2_def s1_def)
    from marked_snoc [OF Cons.prems(1) p(1)] rng False p(2)
    have "marked h (v1_visited s2) (v1_evaluated s2)"
      by (simp add: vis ev)
    from Cons.IH [OF this run] qu bu ev show ?thesis by simp
  qed
qed

definition v1_inv :: "MSWNode list \<Rightarrow> 'd::linorder KNNQuery \<Rightarrow> 'd v1_state \<Rightarrow> bool" where
  "v1_inv h q0 s \<longleftrightarrow>
     marked h (v1_visited s) (v1_evaluated s) \<and>
     v1_iters s + unused (items (v1_sortedArr s)) \<le> length (v1_evaluated s) \<and>
     v1_query s = q0 \<and>
     buf_ok (v1_sortedArr s) (v1_currElem s) \<and>
     (v1_currElem s < length (items (v1_sortedArr s)) \<longrightarrow>
        \<not> item_used (items (v1_sortedArr s) ! v1_currElem s))"

lemma map_item_key_mark:
  "map item_key (xs[i := (xs ! i)\<lparr>item_used := True\<rparr>]) = map item_key xs"
proof (induction xs arbitrary: i)
  case Nil
  then show ?case by simp
next
  case (Cons x xs)
  then show ?case by (cases i) simp_all
qed

lemma v1_body_inv:
  assumes inv: "v1_inv h q0 s"
    and cur: "v1_currElem s < length (items (v1_sortedArr s))"
    and run: "v1_body h efs n s = Inr s'"
  shows "v1_inv h q0 s'"
proof -
  define xs where "xs = items (v1_sortedArr s)"
  define c where "c = v1_currElem s"
  define e where "e = xs ! c"
  define arr1 where "arr1 = (v1_sortedArr s)\<lparr>items := xs[c := e\<lparr>item_used := True\<rparr>]\<rparr>"
  define s1 where
    "s1 = s\<lparr>v1_sortedArr := arr1, v1_currElem := Suc c,
             v1_itemBuff := [], v1_iters := Suc (v1_iters s)\<rparr>"
  from run have nu: "\<not> item_used e"
    by (auto simp: v1_body_def Let_def e_def xs_def c_def split: if_splits)
  from run nu obtain currNode :: MSWNode and s2 where
    nbs: "v1_neighbors h efs n (length (items arr1)) (top_key arr1) (friends currNode) s1 = Inr s2"
    and s': "s' = (v1_insert s2)\<lparr>v1_currElem :=
                   v1_skip_used (items (v1_sortedArr (v1_insert s2))) (v1_currElem (v1_insert s2))\<rparr>"
    by (auto simp: v1_body_def Let_def e_def arr1_def s1_def xs_def c_def split: if_splits sum.splits)
  from inv have m: "marked h (v1_visited s1) (v1_evaluated s1)"
    and cnt: "v1_iters s + unused xs \<le> length (v1_evaluated s)"
    and q: "v1_query s = q0"
    and ok: "buf_ok (v1_sortedArr s) c"
    by (simp_all add: v1_inv_def s1_def xs_def c_def)
  from cur have cl: "c < length xs" by (simp add: c_def xs_def)
  from unused_update [OF cl] nu have u1: "Suc (unused (items arr1)) \<le> unused xs"
    by (simp add: arr1_def e_def)
  from ok cl have ok1: "buf_ok arr1 (Suc c)"
    by (auto simp: buf_ok_def arr1_def xs_def e_def map_item_key_mark nth_list_update less_Suc_eq)
  from v1_neighbors_frame [OF nbs] have fr: "v1_sortedArr s2 = arr1" "v1_currElem s2 = Suc c"
    "v1_iters s2 = Suc (v1_iters s)"
    by (simp_all add: s1_def)
  from v1_neighbors_inv [OF m nbs] have m2: "marked h (v1_visited s2) (v1_evaluated s2)"
    and q2: "v1_query s2 = q0"
    and b2: "length (v1_itemBuff s2) + length (v1_evaluated s) \<le> length (v1_evaluated s2)"
    by (simp_all add: s1_def q)
  from ok1 fr have "buf_ok (v1_sortedArr s2) (v1_currElem s2)" by simp
  from v1_insert_ok [OF this]
  have ok3: "buf_ok (v1_sortedArr (v1_insert s2)) (v1_currElem (v1_insert s2))"
    and u3: "unused (items (v1_sortedArr (v1_insert s2)))
               \<le> unused (items arr1) + length (v1_itemBuff s2)"
    by (simp_all add: fr)
  from ok3 have "v1_currElem (v1_insert s2) \<le> length (items (v1_sortedArr (v1_insert s2)))"
    and "\<forall>i<v1_currElem (v1_insert s2). item_used (items (v1_sortedArr (v1_insert s2)) ! i)"
    by (simp_all add: buf_ok_def)
  from v1_skip_used_ok [OF this] ok3
  have ok': "buf_ok (v1_sortedArr s') (v1_currElem s')"
    and fu: "v1_currElem s' < length (items (v1_sortedArr s')) \<longrightarrow>
             \<not> item_used (items (v1_sortedArr s') ! v1_currElem s')"
    by (simp_all add: s' buf_ok_def)
  from cnt u1 u3 b2 fr(3)
  have "v1_iters s' + unused (items (v1_sortedArr s')) \<le> length (v1_evaluated s')"
    by (simp add: s')
  with m2 q2 ok' fu show ?thesis
    by (simp add: v1_inv_def s')
qed

lemma v1_loop_inv:
  "v1_inv h q0 s \<Longrightarrow> v1_loop h efs n s = Inr s' \<Longrightarrow> v1_inv h q0 s'"
proof (induction h efs n s rule: v1_loop.induct)
  case (1 h efs n s)
  show ?case
  proof (cases "v1_currElem s < min (length (items (v1_sortedArr s))) efs")
    case True
    with "1.prems"(2) obtain s1 where b: "v1_body h efs n s = Inr s1"
      and l: "v1_loop h efs n s1 = Inr s'"
      by (auto simp: v1_loop.simps [of h efs n s] split: sum.splits)
    from True have "v1_currElem s < length (items (v1_sortedArr s))" by simp
    from v1_body_inv [OF "1.prems"(1) this b] have "v1_inv h q0 s1" .
    from "1.IH" [OF True b this l] show ?thesis .
  next
    case False
    with "1.prems" show ?thesis by (auto simp: v1_loop.simps [of h efs n s])
  qed
qed

lemma v1_init_inv:
  assumes "v1_init ix q = Inr s"
  shows "v1_inv (heap ix) q s \<and> length (v1_visited s) = length (ElList ix)"
proof -
  from assms obtain currNode cn where
    ep: "pEntryPoint ix = Some currNode" and dr: "deref (heap ix) currNode = Inr cn" and
    rng: "node_id cn < length (ElList ix)" and ef: "efSearch ix > 0"
    by (auto simp: v1_init_def Let_def split: if_splits option.splits sum.splits)
  from dr have p: "currNode < length (heap ix)" "cn = heap ix ! currNode"
    by (auto simp: deref_def split: if_splits)
  from assms ep dr rng ef have s: "s =
     \<lparr>v1_visited = (replicate (length (ElList ix)) False)[node_id cn := True],
      v1_sortedArr = push_unsorted_grow (DistanceObjLeft q (node_data cn)) currNode
                       (SortArrBI_new (max (efSearch ix) (GetK q))),
      v1_currElem = 0, v1_itemBuff = [], v1_query = q, v1_evaluated = [currNode],
      v1_iters = 0\<rparr>"
    by (auto simp: v1_init_def Let_def)
  have "marked (heap ix) ((replicate (length (ElList ix)) False)[node_id cn := True]) [currNode]"
    by (rule marked_init) (use rng p in auto)
  with ef show ?thesis
    by (simp add: s v1_inv_def buf_ok_def push_unsorted_grow_def SortArrBI_new_def QueueItem_def)
qed

inductive v1_reach :: "'d::linorder SmallWorldRand \<Rightarrow> 'd KNNQuery \<Rightarrow> 'd v1_state \<Rightarrow> bool"
  for ix q where
  v1_reach_init: "v1_init ix q = Inr s \<Longrightarrow> v1_reach ix q s"
| v1_reach_step:
    "v1_reach ix q s \<Longrightarrow>
     v1_currElem s < min (length (items (v1_sortedArr s))) (efSearch ix) \<Longrightarrow>
     v1_body (heap ix) (efSearch ix) (length (ElList ix)) s = Inr s' \<Longrightarrow>
     v1_reach ix q s'"

code_pred v1_reach .

lemma v1_reach_inv: "v1_reach ix q s \<Longrightarrow> v1_inv (heap ix) q s"
proof (induction rule: v1_reach.induct)
  case (v1_reach_init s)
  then show ?case by (simp add: v1_init_inv)
next
  case (v1_reach_step s s')
  from v1_reach_step.hyps(2) have "v1_currElem s < length (items (v1_sortedArr s))" by simp
  from v1_body_inv [OF v1_reach_step.IH this v1_reach_step.hyps(3)] show ?case .
qed

lemma v1_neighbors_no_used_check:
  "v1_neighbors h efs n sz topKey ps s \<noteq> Inl (CheckFailed ''!e.used'')"
  by (induction ps arbitrary: s) (auto simp: deref_def Let_def split: sum.splits)

lemma v1_body_used_check:
  "v1_body h efs n s = Inl (CheckFailed ''!e.used'') \<Longrightarrow>
   item_used (items (v1_sortedArr s) ! v1_currElem s)"
  by (auto simp: v1_body_def Let_def deref_def v1_neighbors_no_used_check
        split: if_splits sum.splits)

lemma v1_loop_no_used_check:
  "v1_inv h q0 s \<Longrightarrow> v1_loop h efs n s \<noteq> Inl (CheckFailed ''!e.used'')"
proof (induction h efs n s rule: v1_loop.induct)
  case (1 h efs n s)
  show ?case
  proof (cases "v1_currElem s < min (length (items (v1_sortedArr s))) efs")
    case True
    then have cur: "v1_currElem s < length (items (v1_sortedArr s))" by simp
    show ?thesis
    proof (cases "v1_body h efs n s")
      case (Inl e)
      from "1.prems" cur have "\<not> item_used (items (v1_sortedArr s) ! v1_currElem s)"
        by (simp add: v1_inv_def)
      with v1_body_used_check [of h efs n s] Inl have "e \<noteq> CheckFailed ''!e.used''" by auto
      with True Inl show ?thesis by (simp add: v1_loop.simps [of h efs n s])
    next
      case (Inr s1)
      from v1_body_inv [OF "1.prems" cur Inr] have "v1_inv h q0 s1" .
      from "1.IH" [OF True Inr this] True Inr show ?thesis
        by (simp add: v1_loop.simps [of h efs n s])
    qed
  next
    case False
    then show ?thesis by (auto simp: v1_loop.simps [of h efs n s])
  qed
qed

lemma v1_emit_no_check: "v1_emit h es q \<noteq> Inl (CheckFailed m)"
  by (induction es arbitrary: q) (auto simp: deref_def split: sum.splits)

lemma v1_emit_offers:
  "v1_emit h es q = Inr q' \<Longrightarrow>
   offered q' = offered q @ map (\<lambda>e. (item_key e, node_data (h ! item_data e))) es"
proof (induction es arbitrary: q)
  case Nil
  then show ?case by simp
next
  case (Cons e es)
  from Cons.prems obtain nd where d: "deref h (item_data e) = Inr nd"
    and r: "v1_emit h es (CheckAndAddToResult (item_key e) (node_data nd) q) = Inr q'"
    by (auto split: sum.splits)
  from d have "nd = h ! item_data e" by (auto simp: deref_def split: if_splits)
  with Cons.IH [OF r] show ?case by (simp add: CheckAndAddToResult_def)
qed

lemma SearchV1Merge_body_inv:
  assumes "SearchV1Merge_body ix q = Inr s"
  shows "v1_inv (heap ix) q s \<and> length (v1_visited s) = length (ElList ix)"
proof -
  from assms obtain s0 where i: "v1_init ix q = Inr s0"
    and l: "v1_loop (heap ix) (efSearch ix) (length (ElList ix)) s0 = Inr s"
    by (auto simp: SearchV1Merge_body_def split: sum.splits)
  from v1_init_inv [OF i] have i0: "v1_inv (heap ix) q s0"
    and l0: "length (v1_visited s0) = length (ElList ix)" by simp_all
  from v1_loop_inv [OF i0 l] have "v1_inv (heap ix) q s" .
  moreover have "length (v1_visited s) = length (v1_visited s0)"
    using l
  proof (induction "heap ix" "efSearch ix" "length (ElList ix)" s0 rule: v1_loop.induct)
    case (1 s0)
    show ?case
    proof (cases "v1_currElem s0 < min (length (items (v1_sortedArr s0))) (efSearch ix)")
      case True
      with "1.prems" obtain s1 where b: "v1_body (heap ix) (efSearch ix) (length (ElList ix)) s0 = Inr s1"
        and l: "v1_loop (heap ix) (efSearch ix) (length (ElList ix)) s1 = Inr s"
        by (auto simp: v1_loop.simps [of _ _ _ s0] split: sum.splits)
      from b have "length (v1_visited s1) = length (v1_visited s0)"
        by (auto simp: v1_body_def Let_def split: if_splits sum.splits dest!: v1_neighbors_frame)
      with "1.hyps" [OF True b l] show ?thesis by simp
    next
      case False
      with "1.prems" show ?thesis by (auto simp: v1_loop.simps [of _ _ _ s0])
    qed
  qed
  ultimately show ?thesis using l0 by simp
qed

section \<open>What a build depends on\<close>

text \<open>
  \<open>graph_of\<close> is the graph of an index: the nodes with their internal ids and friend
  lists, and the node table.  \<open>strip\<close> forgets the two members that take no part in a
  sequential build, the progress flag and the thread count.
\<close>

definition graph_of :: "'d SmallWorldRand \<Rightarrow> MSWNode list \<times> (int \<times> ptr) list" where
  "graph_of ix = (heap ix, ElList ix)"

definition strip :: "'d SmallWorldRand \<Rightarrow> 'd SmallWorldRand" where
  "strip ix = ix\<lparr>PrintProgress := False, indexThreadQty := 0\<rparr>"

lemma graph_of_strip [simp]: "graph_of (strip ix) = graph_of ix"
  by (simp add: graph_of_def strip_def)

lemma index_dist_strip [simp]: "index_dist (strip ix) = index_dist ix"
  by (simp add: fun_eq_iff index_dist_def strip_def)

lemma strip_fields [simp]:
  "heap (strip ix) = heap ix" "ElList (strip ix) = ElList ix" "data (strip ix) = data ix"
  "NN (strip ix) = NN ix" "efConstruction (strip ix) = efConstruction ix"
  "pEntryPoint (strip ix) = pEntryPoint ix"
  by (simp_all add: strip_def)

lemma strip_heap_update [simp]: "strip (ix\<lparr>heap := h\<rparr>) = (strip ix)\<lparr>heap := h\<rparr>"
  by (simp add: strip_def)

lemma searchForIndexing_strip [simp]:
  "searchForIndexing (strip ix) = searchForIndexing ix"
  by (auto simp: fun_eq_iff searchForIndexing_def Let_def split: option.splits sum.splits)

lemma addCriticalSection_strip:
  "addCriticalSection (strip ix) p = map_sum id strip (addCriticalSection ix p)"
  by (simp add: addCriticalSection_def strip_def split: sum.splits)

lemma add_strip: "add (strip ix) p m = map_sum id strip (add ix p m)"
proof -
  have "searchForIndexing ((strip ix)\<lparr>heap := h\<rparr>) = searchForIndexing (ix\<lparr>heap := h\<rparr>)" for h
    using searchForIndexing_strip [of "ix\<lparr>heap := h\<rparr>"] by simp
  moreover have "addCriticalSection ((strip ix)\<lparr>heap := h\<rparr>) p
      = map_sum id strip (addCriticalSection (ix\<lparr>heap := h\<rparr>) p)" for h
    using addCriticalSection_strip [of "ix\<lparr>heap := h\<rparr>" p] by simp
  ultimately show ?thesis
    by (simp add: add_def Let_def split: sum.splits)
qed

lemma add_all_strip: "add_all (strip ix) ids = map_sum id strip (add_all ix ids)"
proof (induction ids arbitrary: ix)
  case Nil
  then show ?case by simp
next
  case (Cons i ids)
  show ?case
  proof (cases "add (ix\<lparr>heap := heap ix @ [\<lparr>node_data = data ix ! i, node_id = i, friends = []\<rparr>]\<rparr>)
                  (length (heap ix)) (length (data ix))")
    case (Inl e)
    with add_strip [of "ix\<lparr>heap := heap ix @ [\<lparr>node_data = data ix ! i, node_id = i, friends = []\<rparr>]\<rparr>"
                       "length (heap ix)" "length (data ix)"]
    show ?thesis by (simp add: new_MSWNode_def)
  next
    case (Inr ix')
    with add_strip [of "ix\<lparr>heap := heap ix @ [\<lparr>node_data = data ix ! i, node_id = i, friends = []\<rparr>]\<rparr>"
                       "length (heap ix)" "length (data ix)"]
      Cons.IH [of ix']
    show ?thesis by (simp add: new_MSWNode_def)
  qed
qed

lemma add_all_cong_strip:
  assumes "strip a = strip b"
  shows "map_sum id graph_of (add_all a ids) = map_sum id graph_of (add_all b ids)"
proof -
  have "map_sum id graph_of (add_all a ids) = map_sum id graph_of (map_sum id strip (add_all a ids))"
    by (cases "add_all a ids") simp_all
  also have "\<dots> = map_sum id graph_of (add_all (strip a) ids)" by (simp add: add_all_strip)
  also have "\<dots> = map_sum id graph_of (add_all (strip b) ids)" by (simp add: assms)
  also have "\<dots> = map_sum id graph_of (map_sum id strip (add_all b ids))" by (simp add: add_all_strip)
  also have "\<dots> = map_sum id graph_of (add_all b ids)"
    by (cases "add_all b ids") simp_all
  finally show ?thesis .
qed

text \<open>
  With at most one indexing thread, the graph that \<^verbatim>\<open>CreateIndex\<close> builds in a new index
  object (or the error it ends with) is the same for two calls that agree on the data,
  the space and the parameters \<open>NN\<close>, \<open>efConstruction\<close> and \<open>useProxyDist\<close>, whatever the
  memory of the two objects held, the progress flag, the hardware concurrency and the
  workers would have done.
\<close>

lemma CreateIndex_single_thread:
  assumes "p_indexThreadQty prm1 = Some t1" "t1 \<le> 1" "p_indexThreadQty prm2 = Some t2" "t2 \<le> 1"
    and "p_NN prm1 = p_NN prm2" "p_efConstruction prm1 = p_efConstruction prm2"
    and "p_useProxyDist prm1 = p_useProxyDist prm2"
  shows "map_sum id graph_of (CreateIndex joined1 hc1 (SmallWorldRand_new mem1 pp1 sp dat) prm1)
       = map_sum id graph_of (CreateIndex joined2 hc2 (SmallWorldRand_new mem2 pp2 sp dat) prm2)"
proof (cases "dat = []")
  case True
  then show ?thesis
    by (simp add: CreateIndex_def SetQueryTimeParams_def getEmptyParams_def ToLower_def Let_def
          SmallWorldRand_new_def graph_of_def)
next
  case False
  define nn where "nn = (case p_NN prm1 of None \<Rightarrow> 10 | Some v \<Rightarrow> v)"
  define efc where "efc = (case p_efConstruction prm1 of None \<Rightarrow> nn | Some v \<Rightarrow> v)"
  define upd where "upd = (case p_useProxyDist prm1 of None \<Rightarrow> False | Some v \<Rightarrow> v)"
  define start :: "bool \<Rightarrow> nat \<Rightarrow> 'a SmallWorldRand" where
    "start = (\<lambda>pp t. \<lparr>space = sp, data = dat, PrintProgress = pp, use_proxy_dist = upd,
       NN = nn, efConstruction = efc, efSearch = nn, indexThreadQty = t, searchAlgoType = kOld,
       ElList = [(obj_id (dat ! 0), 0)], pEntryPoint = Some 0,
       heap = [\<lparr>node_data = dat ! 0, node_id = 0, friends = []\<rparr>]\<rparr>)"
  have c1: "CreateIndex joined1 hc1 (SmallWorldRand_new mem1 pp1 sp dat) prm1
      = add_all (start pp1 t1) [1..<length dat]"
    using False assms(1,2)
    by (simp add: CreateIndex_def SetQueryTimeParams_def getEmptyParams_def ToLower_def Let_def
          SmallWorldRand_new_def new_MSWNode_def addCriticalSection_def deref_def ElList_insert_def
          start_def nn_def efc_def upd_def cong: option.case_cong)
  have c2: "CreateIndex joined2 hc2 (SmallWorldRand_new mem2 pp2 sp dat) prm2
      = add_all (start pp2 t2) [1..<length dat]"
    using False assms(3-7)
    by (simp add: CreateIndex_def SetQueryTimeParams_def getEmptyParams_def ToLower_def Let_def
          SmallWorldRand_new_def new_MSWNode_def addCriticalSection_def deref_def ElList_insert_def
          start_def nn_def efc_def upd_def cong: option.case_cong)
  have "strip (start pp1 t1) = strip (start pp2 t2)"
    by (simp add: strip_def start_def)
  from add_all_cong_strip [OF this] c1 c2 show ?thesis by simp
qed

section \<open>Saving and loading again\<close>

text \<open>
  An entry is what one line of the file says of a node: its internal id, the id of its
  object and the internal ids of its friends.  \<open>table_ok\<close> is what \<^verbatim>\<open>SaveIndex\<close> and
  \<^verbatim>\<open>LoadIndex\<close> need of an index for the round trip: the nodes of the table are nodes
  of the store with pairwise different internal ids inside the data, each bound to the
  object at its id, and every friend is a node of the table.
\<close>

type_synonym entry = "nat \<times> int \<times> nat list"

definition entry_of :: "MSWNode list \<Rightarrow> int \<times> ptr \<Rightarrow> entry" where
  "entry_of h it =
     (node_id (h ! snd it), obj_id (node_data (h ! snd it)),
      map (\<lambda>f. node_id (h ! f)) (friends (h ! snd it)))"

definition entry_tokens :: "entry \<Rightarrow> token list" where
  "entry_tokens e =
     [TInt (int (fst e)), TChar CHR '':'', TInt (fst (snd e)), TChar CHR '':''] @
     map (\<lambda>f. TInt (int f)) (snd (snd e))"

definition entry_line :: "entry \<Rightarrow> line" where
  "entry_line e = EntryLine (entry_tokens e)"

lemma load_lines_entry:
  "load_lines ord pass (entry_line e # rest) st =
     (case load_entry ord pass (entry_tokens e) st of
        Inl err \<Rightarrow> Inl err
      | Inr st' \<Rightarrow> load_lines ord pass rest st')"
  by (simp add: entry_line_def entry_tokens_def)

definition saved_file :: "nat \<Rightarrow> entry list \<Rightarrow> line list" where
  "saved_file nn es =
     [FieldLine METHOD_DESC (VStr StrDesc), FieldLine ''NN'' (VNat nn)] @ map entry_line es @
     [EntryLine [], FieldLine LINE_QTY (VNat (length es + 4))]"

definition table_ok :: "'d SmallWorldRand \<Rightarrow> bool" where
  "table_ok ix \<longleftrightarrow>
     distinct (map fst (ElList ix)) \<and>
     distinct (map (\<lambda>it. node_id (heap ix ! snd it)) (ElList ix)) \<and>
     (\<forall>it \<in> set (ElList ix).
        snd it < length (heap ix) \<and>
        node_id (heap ix ! snd it) < length (data ix) \<and>
        fst it = obj_id (node_data (heap ix ! snd it)) \<and>
        obj_id (data ix ! node_id (heap ix ! snd it)) = obj_id (node_data (heap ix ! snd it)) \<and>
        (\<forall>f \<in> set (friends (heap ix ! snd it)).
           f < length (heap ix) \<and>
           node_id (heap ix ! f) \<in> (\<lambda>it. node_id (heap ix ! snd it)) ` set (ElList ix)))"

definition entries_ok :: "Object list \<Rightarrow> entry list \<Rightarrow> bool" where
  "entries_ok dat es \<longleftrightarrow>
     distinct (map fst es) \<and> distinct (map (\<lambda>e. fst (snd e)) es) \<and>
     (\<forall>e \<in> set es. fst e < length dat \<and> obj_id (dat ! fst e) = fst (snd e) \<and>
                    (\<forall>f \<in> set (snd (snd e)). f \<in> fst ` set es))"

lemma save_friends_ok:
  "\<forall>f \<in> set fs. f < length h \<and> node_id (h ! f) < n \<Longrightarrow>
   save_friends h n fs = Inr (map (\<lambda>f. TInt (int (node_id (h ! f)))) fs)"
  by (induction fs) (simp_all add: deref_def)

lemma save_nodes_ok:
  "\<forall>it \<in> set es. snd it < length h \<and> node_id (h ! snd it) < n \<and>
      (\<forall>f \<in> set (friends (h ! snd it)). f < length h \<and> node_id (h ! f) < n) \<Longrightarrow>
   save_nodes h n es ln = Inr (map (\<lambda>it. entry_line (entry_of h it)) es, ln + length es)"
proof (induction es arbitrary: ln)
  case Nil
  then show ?case by simp
next
  case (Cons it es)
  from Cons.prems have "save_friends h n (friends (h ! snd it))
      = Inr (map (\<lambda>f. TInt (int (node_id (h ! f)))) (friends (h ! snd it)))"
    by (intro save_friends_ok) simp
  moreover from Cons have "save_nodes h n es (ln + 1)
      = Inr (map (\<lambda>it. entry_line (entry_of h it)) es, ln + 1 + length es)"
    by simp
  ultimately show ?case
    using Cons.prems by (simp add: deref_def entry_line_def entry_tokens_def entry_of_def comp_def)
qed

lemma SaveIndex_ok:
  assumes "table_ok ix"
  shows "SaveIndex ix = Inr (saved_file (NN ix) (map (entry_of (heap ix)) (ElList ix)))"
proof -
  have "\<forall>it \<in> set (ElList ix). snd it < length (heap ix) \<and>
          node_id (heap ix ! snd it) < length (data ix) \<and>
          (\<forall>f \<in> set (friends (heap ix ! snd it)).
             f < length (heap ix) \<and> node_id (heap ix ! f) < length (data ix))"
  proof -
    from assms have ids: "\<forall>i \<in> (\<lambda>it. node_id (heap ix ! snd it)) ` set (ElList ix).
        i < length (data ix)"
      by (auto simp: table_ok_def)
    from assms have fr: "\<forall>it \<in> set (ElList ix). snd it < length (heap ix) \<and>
        node_id (heap ix ! snd it) < length (data ix) \<and>
        (\<forall>f \<in> set (friends (heap ix ! snd it)). f < length (heap ix) \<and>
           node_id (heap ix ! f) \<in> (\<lambda>it. node_id (heap ix ! snd it)) ` set (ElList ix))"
      by (simp add: table_ok_def)
    from ids fr show ?thesis by blast
  qed
  from save_nodes_ok [OF this, of 2] show ?thesis
    by (simp add: SaveIndex_def saved_file_def comp_def)
qed

lemma table_entries_ok:
  assumes "table_ok ix"
  shows "entries_ok (data ix) (map (entry_of (heap ix)) (ElList ix))"
proof -
  have k: "map (\<lambda>e. fst (snd e)) (map (entry_of (heap ix)) (ElList ix)) = map fst (ElList ix)"
    using assms by (auto simp: table_ok_def entry_of_def)
  have i: "map fst (map (entry_of (heap ix)) (ElList ix))
      = map (\<lambda>it. node_id (heap ix ! snd it)) (ElList ix)"
    by (simp add: entry_of_def)
  have s: "fst ` set (map (entry_of (heap ix)) (ElList ix))
      = (\<lambda>it. node_id (heap ix ! snd it)) ` set (ElList ix)"
    by (simp add: entry_of_def image_image)
  show ?thesis
    unfolding entries_ok_def k i s
    using assms by (auto simp: table_ok_def entry_of_def)
qed

subsection \<open>The first pass of loading\<close>

definition mk_node :: "Object list \<Rightarrow> entry \<Rightarrow> MSWNode" where
  "mk_node dat e = \<lparr>node_data = dat ! fst e, node_id = fst e, friends = []\<rparr>"

fun el0 :: "nat \<Rightarrow> entry list \<Rightarrow> (int \<times> ptr) list \<Rightarrow> (int \<times> ptr) list" where
  "el0 b [] m = m"
| "el0 b (e # es) m = el0 (Suc b) es (ElList_insert (fst (snd e)) b m)"

fun pm0 :: "nat \<Rightarrow> entry list \<Rightarrow> ptr option list \<Rightarrow> ptr option list" where
  "pm0 b [] pm = pm"
| "pm0 b (e # es) pm = pm0 (Suc b) es (pm[fst e := Some b])"

lemma load_entry_0:
  assumes "fst e < length (data ix)" "obj_id (data ix ! fst e) = fst (snd e)"
  shows "load_entry LeftToRight 0 (entry_tokens e) \<lparr>ld_index = ix, ld_ptrMapper = pm, ld_lineNum = ln\<rparr>
       = Inr \<lparr>ld_index = ix\<lparr>heap := heap ix @ [mk_node (data ix) e],
                              ElList := ElList_insert (fst (snd e)) (length (heap ix)) (ElList ix)\<rparr>,
              ld_ptrMapper = pm[fst e := Some (length (heap ix))],
              ld_lineNum = ln + 1\<rparr>"
  using assms
  by (simp add: load_entry_def entry_tokens_def new_MSWNode_def mk_node_def unique_ptr_arrow_def
        deref_def Let_def)

lemma pass0_lines:
  "\<forall>e \<in> set es. fst e < length (data ix) \<and> obj_id (data ix ! fst e) = fst (snd e) \<Longrightarrow>
   load_lines LeftToRight 0 (map entry_line es @ EntryLine [] # rest)
     \<lparr>ld_index = ix, ld_ptrMapper = pm, ld_lineNum = ln\<rparr>
   = Inr (\<lparr>ld_index = ix\<lparr>heap := heap ix @ map (mk_node (data ix)) es,
                           ElList := el0 (length (heap ix)) es (ElList ix)\<rparr>,
            ld_ptrMapper = pm0 (length (heap ix)) es pm,
            ld_lineNum = ln + length es + 1\<rparr>, rest)"
proof (induction es arbitrary: ix pm ln)
  case Nil
  then show ?case by simp
next
  case (Cons e es)
  define ix1 where "ix1 = ix\<lparr>heap := heap ix @ [mk_node (data ix) e],
      ElList := ElList_insert (fst (snd e)) (length (heap ix)) (ElList ix)\<rparr>"
  from Cons.prems have e: "fst e < length (data ix)" "obj_id (data ix ! fst e) = fst (snd e)"
    by simp_all
  have d1: "data ix1 = data ix" by (simp add: ix1_def)
  from Cons.prems have "\<forall>e \<in> set es. fst e < length (data ix1) \<and>
      obj_id (data ix1 ! fst e) = fst (snd e)"
    by (simp add: d1)
  from Cons.IH [OF this, of "pm[fst e := Some (length (heap ix))]" "ln + 1"]
  have "load_lines LeftToRight 0 (map entry_line es @ EntryLine [] # rest)
     \<lparr>ld_index = ix1, ld_ptrMapper = pm[fst e := Some (length (heap ix))], ld_lineNum = ln + 1\<rparr>
   = Inr (\<lparr>ld_index = ix\<lparr>heap := heap ix @ map (mk_node (data ix)) (e # es),
                           ElList := el0 (length (heap ix)) (e # es) (ElList ix)\<rparr>,
            ld_ptrMapper = pm0 (length (heap ix)) (e # es) pm,
            ld_lineNum = ln + length (e # es) + 1\<rparr>, rest)"
    by (simp add: ix1_def)
  with load_entry_0 [OF e, of pm ln]
  show ?case
    by (simp add: load_lines_entry ix1_def)
qed

lemma el0_distinct:
  "distinct (map (\<lambda>e. fst (snd e)) es) \<Longrightarrow>
   (\<lambda>e. fst (snd e)) ` set es \<inter> fst ` set m = {} \<Longrightarrow>
   el0 b es m = m @ zip (map (\<lambda>e. fst (snd e)) es) [b..<b + length es]"
proof (induction es arbitrary: b m)
  case Nil
  then show ?case by simp
next
  case (Cons e es)
  from Cons.prems have ins: "ElList_insert (fst (snd e)) b m = m @ [(fst (snd e), b)]"
    by (auto simp: ElList_insert_def)
  from Cons.prems have "(\<lambda>e. fst (snd e)) ` set es \<inter> fst ` set (m @ [(fst (snd e), b)]) = {}"
    by auto
  moreover have "[b..<Suc (b + length es)] = b # [Suc b..<Suc (b + length es)]"
    by (rule upt_conv_Cons) simp
  ultimately show ?case
    using Cons.IH [of "m @ [(fst (snd e), b)]" "Suc b"] Cons.prems(1) ins
    by (simp del: upt_Suc)
qed

lemma pm0_length [simp]: "length (pm0 b es pm) = length pm"
  by (induction es arbitrary: b pm) simp_all

lemma pm0_untouched: "i \<notin> fst ` set es \<Longrightarrow> pm0 b es pm ! i = pm ! i"
  by (induction es arbitrary: b pm) (auto simp: nth_list_update)

lemma pm0_nth:
  "distinct (map fst es) \<Longrightarrow> \<forall>e \<in> set es. fst e < length pm \<Longrightarrow> j < length es \<Longrightarrow>
   pm0 b es pm ! fst (es ! j) = Some (b + j)"
proof (induction es arbitrary: b pm j)
  case Nil
  then show ?case by simp
next
  case (Cons e es)
  show ?case
  proof (cases j)
    case 0
    from Cons.prems have "fst e \<notin> fst ` set es" "fst e < length pm" by auto
    with 0 show ?thesis by (simp add: pm0_untouched)
  next
    case (Suc j')
    with Cons.prems Cons.IH [of "pm[fst e := Some b]" j' "Suc b"] show ?thesis by simp
  qed
qed

subsection \<open>The second pass of loading\<close>

lemma load_friends_ok:
  "\<forall>f \<in> set fs. f < n \<and> pm ! f \<noteq> None \<Longrightarrow>
   load_friends n pm p (map (\<lambda>f. TInt (int f)) fs) h
     = Inr (fold (\<lambda>f. addFriend p (the (pm ! f))) fs h)"
  by (induction fs arbitrary: h) auto

lemma fold_addFriend:
  "p < length h \<Longrightarrow>
   fold (\<lambda>f. addFriend p (g f)) fs h = h[p := (h ! p)\<lparr>friends := friends (h ! p) @ map g fs\<rparr>]"
proof (induction fs arbitrary: h)
  case Nil
  then show ?case by simp
next
  case (Cons f fs)
  then show ?case by (simp add: addFriend_def)
qed

fun heap1 :: "ptr option list \<Rightarrow> entry list \<Rightarrow> MSWNode list \<Rightarrow> MSWNode list" where
  "heap1 pm [] h = h"
| "heap1 pm (e # es) h =
     heap1 pm es (fold (\<lambda>f. addFriend (the (pm ! fst e)) (the (pm ! f))) (snd (snd e)) h)"

lemma load_entry_1:
  assumes "fst e < length (data ix)" "obj_id (data ix ! fst e) = fst (snd e)"
    and "pm ! fst e \<noteq> None" "\<forall>f \<in> set (snd (snd e)). f < length (data ix) \<and> pm ! f \<noteq> None"
  shows "load_entry LeftToRight 1 (entry_tokens e) \<lparr>ld_index = ix, ld_ptrMapper = pm, ld_lineNum = ln\<rparr>
       = Inr \<lparr>ld_index = ix\<lparr>heap := fold (\<lambda>f. addFriend (the (pm ! fst e)) (the (pm ! f)))
                                         (snd (snd e)) (heap ix)\<rparr>,
              ld_ptrMapper = pm, ld_lineNum = ln + 1\<rparr>"
  using assms load_friends_ok [OF assms(4), of "the (pm ! fst e)" "heap ix"]
  by (auto simp: load_entry_def entry_tokens_def)

lemma pass1_lines:
  "\<forall>e \<in> set es. fst e < length (data ix) \<and> obj_id (data ix ! fst e) = fst (snd e) \<and>
      pm ! fst e \<noteq> None \<and> (\<forall>f \<in> set (snd (snd e)). f < length (data ix) \<and> pm ! f \<noteq> None) \<Longrightarrow>
   load_lines LeftToRight 1 (map entry_line es @ EntryLine [] # rest)
     \<lparr>ld_index = ix, ld_ptrMapper = pm, ld_lineNum = ln\<rparr>
   = Inr (\<lparr>ld_index = ix\<lparr>heap := heap1 pm es (heap ix)\<rparr>,
            ld_ptrMapper = pm, ld_lineNum = ln + length es + 1\<rparr>, rest)"
proof (induction es arbitrary: ix ln)
  case Nil
  then show ?case by simp
next
  case (Cons e es)
  define ix1 where "ix1 = ix\<lparr>heap := fold (\<lambda>f. addFriend (the (pm ! fst e)) (the (pm ! f)))
                                         (snd (snd e)) (heap ix)\<rparr>"
  from Cons.prems have e: "fst e < length (data ix)" "obj_id (data ix ! fst e) = fst (snd e)"
    "pm ! fst e \<noteq> None" "\<forall>f \<in> set (snd (snd e)). f < length (data ix) \<and> pm ! f \<noteq> None"
    by simp_all
  have d1: "data ix1 = data ix" by (simp add: ix1_def)
  from Cons.prems have "\<forall>e \<in> set es. fst e < length (data ix1) \<and>
      obj_id (data ix1 ! fst e) = fst (snd e) \<and> pm ! fst e \<noteq> None \<and>
      (\<forall>f \<in> set (snd (snd e)). f < length (data ix1) \<and> pm ! f \<noteq> None)"
    by (simp add: d1)
  from Cons.IH [OF this, of "ln + 1"]
  have "load_lines LeftToRight 1 (map entry_line es @ EntryLine [] # rest)
     \<lparr>ld_index = ix1, ld_ptrMapper = pm, ld_lineNum = ln + 1\<rparr>
   = Inr (\<lparr>ld_index = ix\<lparr>heap := heap1 pm (e # es) (heap ix)\<rparr>,
            ld_ptrMapper = pm, ld_lineNum = ln + length (e # es) + 1\<rparr>, rest)"
    by (simp add: ix1_def)
  with load_entry_1 [OF e, of ln]
  show ?case
    by (simp add: load_lines_entry ix1_def)
qed

definition done_node :: "Object list \<Rightarrow> ptr option list \<Rightarrow> entry \<Rightarrow> MSWNode" where
  "done_node dat pm e =
     \<lparr>node_data = dat ! fst e, node_id = fst e,
      friends = map (\<lambda>f. the (pm ! f)) (snd (snd e))\<rparr>"

lemma heap1_done:
  "\<forall>j < length (pre @ suf). pm ! fst ((pre @ suf) ! j) = Some j \<Longrightarrow>
   heap1 pm suf (map (done_node dat pm) pre @ map (mk_node dat) suf)
     = map (done_node dat pm) (pre @ suf)"
proof (induction suf arbitrary: pre)
  case Nil
  then show ?case by simp
next
  case (Cons e suf)
  from Cons.prems [rule_format, of "length pre"] have t: "the (pm ! fst e) = length pre"
    by simp
  have "fold (\<lambda>f. addFriend (length pre) (the (pm ! f))) (snd (snd e))
          (map (done_node dat pm) pre @ map (mk_node dat) (e # suf))
        = map (done_node dat pm) (pre @ [e]) @ map (mk_node dat) suf"
    by (subst fold_addFriend)
       (simp_all add: nth_append list_update_append mk_node_def done_node_def)
  moreover from Cons.prems have "\<forall>j < length ((pre @ [e]) @ suf). pm ! fst (((pre @ [e]) @ suf) ! j) = Some j"
    by simp
  from Cons.IH [OF this] have "heap1 pm suf (map (done_node dat pm) (pre @ [e]) @ map (mk_node dat) suf)
      = map (done_node dat pm) (pre @ e # suf)" by simp
  ultimately show ?case by (simp add: t)
qed

lemma load_pass_0:
  assumes "\<forall>e \<in> set es. fst e < length (data ix) \<and> obj_id (data ix ! fst e) = fst (snd e)"
  shows "load_pass LeftToRight 0 (saved_file nn es) (ix, pm)
       = Inr (ix\<lparr>NN := nn, heap := heap ix @ map (mk_node (data ix)) es,
                 ElList := el0 (length (heap ix)) es (ElList ix)\<rparr>,
              pm0 (length (heap ix)) es pm)"
proof -
  from assms have "\<forall>e \<in> set es. fst e < length (data (ix\<lparr>NN := nn\<rparr>)) \<and>
      obj_id (data (ix\<lparr>NN := nn\<rparr>) ! fst e) = fst (snd e)" by simp
  from pass0_lines [OF this, of "[FieldLine LINE_QTY (VNat (length es + 4))]" pm 3]
  show ?thesis
    by (simp add: load_pass_def saved_file_def ReadField_str_def ReadField_nat_def)
qed

lemma load_pass_1:
  assumes "\<forall>e \<in> set es. fst e < length (data ix) \<and> obj_id (data ix ! fst e) = fst (snd e) \<and>
      pm ! fst e \<noteq> None \<and> (\<forall>f \<in> set (snd (snd e)). f < length (data ix) \<and> pm ! f \<noteq> None)"
  shows "load_pass LeftToRight 1 (saved_file nn es) (ix, pm)
       = Inr (ix\<lparr>NN := nn, heap := heap1 pm es (heap ix)\<rparr>, pm)"
proof -
  from assms have "\<forall>e \<in> set es. fst e < length (data (ix\<lparr>NN := nn\<rparr>)) \<and>
      obj_id (data (ix\<lparr>NN := nn\<rparr>) ! fst e) = fst (snd e) \<and>
      pm ! fst e \<noteq> None \<and>
      (\<forall>f \<in> set (snd (snd e)). f < length (data (ix\<lparr>NN := nn\<rparr>)) \<and> pm ! f \<noteq> None)" by simp
  from pass1_lines [OF this, of "[FieldLine LINE_QTY (VNat (length es + 4))]" 3]
  show ?thesis
    by (simp add: load_pass_def saved_file_def ReadField_str_def ReadField_nat_def)
qed

definition loaded_index ::
  "members \<Rightarrow> bool \<Rightarrow> 'd Space \<Rightarrow> Object list \<Rightarrow> nat \<Rightarrow> entry list \<Rightarrow>
   'd SmallWorldRand" where
  "loaded_index mem pp sp dat nn es =
     (SmallWorldRand_new mem pp sp dat)
       \<lparr>NN := nn,
        heap := map (done_node dat (pm0 0 es (replicate (length dat) None))) es,
        ElList := zip (map (\<lambda>e. fst (snd e)) es) [0..<length es]\<rparr>"

lemma LoadIndex_ok:
  assumes ok: "entries_ok dat es"
  shows "LoadIndex LeftToRight (SmallWorldRand_new mem pp sp dat) (saved_file nn es)
       = Inr (loaded_index mem pp sp dat nn es)"
proof -
  define fresh :: "'a SmallWorldRand" where "fresh = SmallWorldRand_new mem pp sp dat"
  define pm where "pm = pm0 0 es (replicate (length dat) None)"
  define ixA where "ixA = fresh\<lparr>NN := nn, heap := map (mk_node dat) es,
                               ElList := zip (map (\<lambda>e. fst (snd e)) es) [0..<length es]\<rparr>"
  have fr: "data fresh = dat" "heap fresh = []" "ElList fresh = []"
    by (simp_all add: fresh_def SmallWorldRand_new_def)
  from ok have e1: "\<forall>e \<in> set es. fst e < length dat \<and> obj_id (dat ! fst e) = fst (snd e)"
    and di: "distinct (map fst es)" and dk: "distinct (map (\<lambda>e. fst (snd e)) es)"
    and e4: "\<forall>e \<in> set es. \<forall>f \<in> set (snd (snd e)). f \<in> fst ` set es"
    by (auto simp: entries_ok_def)
  have el: "el0 0 es [] = zip (map (\<lambda>e. fst (snd e)) es) [0..<length es]"
    using el0_distinct [OF dk, of "[]" 0] by simp
  have p0: "load_pass LeftToRight 0 (saved_file nn es) (fresh, replicate (length dat) None) = Inr (ixA, pm)"
    using load_pass_0 [of es fresh nn "replicate (length dat) None"] e1
    by (simp add: fr el ixA_def pm_def)
  have pmn: "\<forall>j < length es. pm ! fst (es ! j) = Some j"
    using pm0_nth [OF di, of "replicate (length dat) None" _ 0] e1 by (simp add: pm_def)
  have pms: "\<forall>f \<in> fst ` set es. f < length dat \<and> pm ! f \<noteq> None"
  proof
    fix f assume "f \<in> fst ` set es"
    then obtain j where j: "j < length es" "f = fst (es ! j)"
      by (auto simp: in_set_conv_nth)
    with pmn e1 show "f < length dat \<and> pm ! f \<noteq> None" by auto
  qed
  have dA: "data ixA = dat" by (simp add: ixA_def fr)
  have c1: "\<forall>e \<in> set es. fst e < length (data ixA) \<and> obj_id (data ixA ! fst e) = fst (snd e) \<and>
      pm ! fst e \<noteq> None \<and> (\<forall>f \<in> set (snd (snd e)). f < length (data ixA) \<and> pm ! f \<noteq> None)"
    unfolding dA
  proof (intro ballI conjI)
    fix e assume e: "e \<in> set es"
    with e1 show "fst e < length dat" "obj_id (dat ! fst e) = fst (snd e)" by simp_all
    from e pms show "pm ! fst e \<noteq> None" by auto
  next
    fix e f assume e: "e \<in> set es" and f: "f \<in> set (snd (snd e))"
    with e4 have "f \<in> fst ` set es" by simp
    then obtain e' where "e' \<in> set es" "f = fst e'" by auto
    with pms show "f < length dat" "pm ! f \<noteq> None" by auto
  qed
  have h1: "heap1 pm es (map (mk_node dat) es) = map (done_node dat pm) es"
    using heap1_done [of "[]" es pm dat] pmn by simp
  have p1: "load_pass LeftToRight 1 (saved_file nn es) (ixA, pm)
      = Inr (ixA\<lparr>NN := nn, heap := map (done_node dat pm) es\<rparr>, pm)"
    using load_pass_1 [OF c1, of nn] h1 by (simp add: ixA_def)
  have li: "ixA\<lparr>NN := nn, heap := map (done_node dat pm) es\<rparr> = loaded_index mem pp sp dat nn es"
    by (simp add: ixA_def loaded_index_def fresh_def pm_def)
  have "LoadIndex LeftToRight fresh (saved_file nn es)
      = Inr (ixA\<lparr>NN := nn, heap := map (done_node dat pm) es\<rparr>)"
    by (simp only: LoadIndex_def fr(1) p0 p1 sum.case fst_conv)
  then show ?thesis
    by (simp only: li fresh_def)
qed

lemma loaded_entries:
  assumes ok: "entries_ok dat es"
  shows "map (entry_of (heap (loaded_index mem pp sp dat nn es))) (ElList (loaded_index mem pp sp dat nn es)) = es"
proof -
  define pm where "pm = pm0 0 es (replicate (length dat) None)"
  define h' where "h' = map (done_node dat pm) es"
  from ok have e1: "\<forall>e \<in> set es. fst e < length dat \<and> obj_id (dat ! fst e) = fst (snd e)"
    and di: "distinct (map fst es)"
    and e4: "\<forall>e \<in> set es. \<forall>f \<in> set (snd (snd e)). f \<in> fst ` set es"
    by (auto simp: entries_ok_def)
  have pmn: "\<forall>j < length es. pm ! fst (es ! j) = Some j"
    using pm0_nth [OF di, of "replicate (length dat) None" _ 0] e1 by (simp add: pm_def)
  have nid: "node_id (h' ! the (pm ! f)) = f" if "f \<in> fst ` set es" for f
  proof -
    from that obtain j where j: "j < length es" "f = fst (es ! j)"
      by (auto simp: in_set_conv_nth)
    with pmn show ?thesis by (simp add: h'_def done_node_def)
  qed
  have ent: "entry_of h' (fst (snd (es ! j)), j) = es ! j" if j: "j < length es" for j
  proof -
    obtain i ob fs where ej: "es ! j = (i, ob, fs)" by (cases "es ! j")
    from j have m: "es ! j \<in> set es" by simp
    with e4 ej have "\<forall>f \<in> set fs. f \<in> fst ` set es" by auto
    with nid have "\<forall>f \<in> set fs. node_id (h' ! the (pm ! f)) = f" by blast
    then have fs: "map (\<lambda>f. node_id (h' ! the (pm ! f))) fs = fs"
      by (simp add: map_idI)
    from m e1 ej have ob: "obj_id (dat ! i) = ob" by auto
    from j ej have hj: "h' ! j = \<lparr>node_data = dat ! i, node_id = i,
        friends = map (\<lambda>f. the (pm ! f)) fs\<rparr>"
      by (simp add: h'_def done_node_def)
    show ?thesis
      by (simp add: entry_of_def ej hj ob fs comp_def)
  qed
  have "map (entry_of h') (zip (map (\<lambda>e. fst (snd e)) es) [0..<length es]) = es"
    by (rule nth_equalityI) (simp_all add: ent)
  then show ?thesis
    by (simp add: loaded_index_def h'_def pm_def)
qed

definition node_view :: "MSWNode list \<Rightarrow> int \<times> ptr \<Rightarrow> nat \<times> int \<times> nat multiset" where
  "node_view h it =
     (node_id (h ! snd it), obj_id (node_data (h ! snd it)),
      mset (map (\<lambda>f. node_id (h ! f)) (friends (h ! snd it))))"

lemma node_view_entry_of:
  "node_view h it = (fst (entry_of h it), fst (snd (entry_of h it)), mset (snd (snd (entry_of h it))))"
  by (simp add: node_view_def entry_of_def)

lemma roundtrip_table_ok:
  assumes "table_ok ix"
  shows "\<exists>file ix'. SaveIndex ix = Inr file \<and>
           LoadIndex LeftToRight (SmallWorldRand_new mem pp sp (data ix)) file = Inr ix' \<and>
           length (ElList ix') = length (ElList ix) \<and>
           map (entry_of (heap ix')) (ElList ix') = map (entry_of (heap ix)) (ElList ix) \<and>
           map (node_view (heap ix')) (ElList ix') = map (node_view (heap ix)) (ElList ix) \<and>
           NN ix' = NN ix \<and> data ix' = data ix"
proof -
  define es where "es = map (entry_of (heap ix)) (ElList ix)"
  define ix' :: "'b SmallWorldRand" where "ix' = loaded_index mem pp sp (data ix) (NN ix) es"
  from table_entries_ok [OF assms] have ok: "entries_ok (data ix) es" by (simp add: es_def)
  have s: "SaveIndex ix = Inr (saved_file (NN ix) es)"
    using SaveIndex_ok [OF assms] by (simp add: es_def)
  have l: "LoadIndex LeftToRight (SmallWorldRand_new mem pp sp (data ix)) (saved_file (NN ix) es) = Inr ix'"
    using LoadIndex_ok [OF ok] by (simp add: ix'_def)
  have e: "map (entry_of (heap ix')) (ElList ix') = es"
    using loaded_entries [OF ok] by (simp add: ix'_def)
  from e have e': "map (entry_of (heap ix')) (ElList ix') = map (entry_of (heap ix)) (ElList ix)"
    by (simp only: es_def)
  have nv: "map (node_view h) xs
      = map (\<lambda>e. (fst e, fst (snd e), mset (snd (snd e)))) (map (entry_of h) xs)" for h xs
    by (simp add: node_view_entry_of)
  have v: "map (node_view (heap ix')) (ElList ix') = map (node_view (heap ix)) (ElList ix)"
    by (simp only: nv e')
  then have len: "length (ElList ix') = length (ElList ix)"
    by (rule map_eq_imp_length_eq)
  have nn: "NN ix' = NN ix" and dd: "data ix' = data ix"
    by (simp_all add: ix'_def loaded_index_def SmallWorldRand_new_def)
  show ?thesis
    by (intro exI conjI) (rule s l len e' v nn dd)+
qed

definition hp_ok :: "Object list \<Rightarrow> MSWNode list \<Rightarrow> bool" where
  "hp_ok dat h \<longleftrightarrow>
     (\<forall>p < length h. node_id (h ! p) = p \<and> node_data (h ! p) = dat ! p \<and>
                     (\<forall>f \<in> set (friends (h ! p)). f < length h))"

definition built :: "'d SmallWorldRand \<Rightarrow> bool" where
  "built ix \<longleftrightarrow>
     length (heap ix) \<le> length (data ix) \<and> hp_ok (data ix) (heap ix) \<and>
     ElList ix = map (\<lambda>p. (obj_id (data ix ! p), p)) [0..<length (heap ix)]"

lemma length_addFriend [simp]: "length (addFriend p f h) = length h"
  by (simp add: addFriend_def)

lemma addFriend_ok: "hp_ok dat h \<Longrightarrow> f < length h \<Longrightarrow> hp_ok dat (addFriend p f h)"
proof (cases "p < length h")
  case True
  assume "hp_ok dat h" "f < length h"
  with True show ?thesis
    by (auto simp: hp_ok_def addFriend_def nth_list_update)
next
  case False
  assume "hp_ok dat h"
  with False show ?thesis by (simp add: addFriend_def list_update_beyond not_less)
qed

lemma length_link [simp]: "length (link a b h) = length h"
  by (simp add: link_def)

lemma link_ok: "hp_ok dat h \<Longrightarrow> a < length h \<Longrightarrow> b < length h \<Longrightarrow> hp_ok dat (link a b h)"
  by (simp add: link_def addFriend_ok)

lemma link_all_ok:
  "hp_ok dat h \<Longrightarrow> x < length h \<Longrightarrow> \<forall>r \<in> set rs. snd r < length h \<Longrightarrow>
   hp_ok dat (link_all rs x h) \<and> length (link_all rs x h) = length h"
proof (induction rs arbitrary: h)
  case Nil
  then show ?case by simp
next
  case (Cons r rs)
  from Cons.prems have "hp_ok dat (link (snd r) x h)" by (simp add: link_ok)
  from Cons.IH [OF this] Cons.prems show ?case by simp
qed

lemma built_table_ok:
  assumes b: "built ix" and d: "distinct (map obj_id (data ix))"
  shows "table_ok ix"
proof -
  define n where "n = length (heap ix)"
  from b have n: "n \<le> length (data ix)" and h: "hp_ok (data ix) (heap ix)"
    and el: "ElList ix = map (\<lambda>p. (obj_id (data ix ! p), p)) [0..<n]"
    by (simp_all add: built_def n_def)
  have inj: "inj_on (\<lambda>p. obj_id (data ix ! p)) {0..<n}"
  proof (rule inj_onI)
    fix p q assume "p \<in> {0..<n}" "q \<in> {0..<n}" "obj_id (data ix ! p) = obj_id (data ix ! q)"
    with n have pl: "p < length (map obj_id (data ix))" and ql: "q < length (map obj_id (data ix))"
      and eq: "obj_id (data ix ! p) = obj_id (data ix ! q)" by simp_all
    from nth_eq_iff_index_eq [OF d pl ql] eq pl ql show "p = q" by simp
  qed
  have d1: "distinct (map fst (ElList ix))"
    by (simp add: el comp_def distinct_map inj)
  have "map (\<lambda>p. node_id (heap ix ! p)) [0..<n] = [0..<n]"
    by (rule map_idI) (use h in \<open>simp add: hp_ok_def n_def\<close>)
  then have ids: "map (\<lambda>it. node_id (heap ix ! snd it)) (ElList ix) = [0..<n]"
    by (simp add: el comp_def)
  have d2: "distinct (map (\<lambda>it. node_id (heap ix ! snd it)) (ElList ix))"
    by (simp only: ids distinct_upt)
  have im: "(\<lambda>it. node_id (heap ix ! snd it)) ` set (ElList ix) = {0..<n}"
    using ids by (metis atLeastLessThan_upt set_map)
  have "\<forall>it \<in> set (ElList ix).
        snd it < length (heap ix) \<and>
        node_id (heap ix ! snd it) < length (data ix) \<and>
        fst it = obj_id (node_data (heap ix ! snd it)) \<and>
        obj_id (data ix ! node_id (heap ix ! snd it)) = obj_id (node_data (heap ix ! snd it)) \<and>
        (\<forall>f \<in> set (friends (heap ix ! snd it)).
           f < length (heap ix) \<and> node_id (heap ix ! f) \<in> {0..<n})"
  proof
    fix it assume "it \<in> set (ElList ix)"
    then obtain p where p: "p < n" "it = (obj_id (data ix ! p), p)"
      by (auto simp: el)
    from h p(1) have hp: "node_id (heap ix ! p) = p" "node_data (heap ix ! p) = data ix ! p"
      "\<forall>f \<in> set (friends (heap ix ! p)). f < n"
      by (simp_all add: hp_ok_def n_def)
    from h hp(3) have "\<forall>f \<in> set (friends (heap ix ! p)). node_id (heap ix ! f) = f"
      by (simp add: hp_ok_def n_def)
    with p hp n show "snd it < length (heap ix) \<and>
        node_id (heap ix ! snd it) < length (data ix) \<and>
        fst it = obj_id (node_data (heap ix ! snd it)) \<and>
        obj_id (data ix ! node_id (heap ix ! snd it)) = obj_id (node_data (heap ix ! snd it)) \<and>
        (\<forall>f \<in> set (friends (heap ix ! snd it)).
           f < length (heap ix) \<and> node_id (heap ix ! f) \<in> {0..<n})"
      by (simp add: n_def)
  qed
  with d1 d2 show ?thesis
    unfolding table_ok_def im by simp
qed

lemma add_built:
  assumes b: "built ix" and d: "distinct (map obj_id (data ix))"
    and lt: "length (heap ix) < length (data ix)"
    and run: "add (ix\<lparr>heap := heap ix @ [\<lparr>node_data = data ix ! length (heap ix),
                                           node_id = length (heap ix), friends = []\<rparr>]\<rparr>)
                (length (heap ix)) m = Inr ix'"
  shows "built ix' \<and> data ix' = data ix \<and> length (heap ix') = Suc (length (heap ix))"
proof -
  define n where "n = length (heap ix)"
  define x where "x = \<lparr>node_data = data ix ! n, node_id = n, friends = []\<rparr>"
  define h0 where "h0 = heap ix @ [x]"
  define ix1 where "ix1 = ix\<lparr>heap := h0\<rparr>"
  from b have h: "hp_ok (data ix) (heap ix)"
    and el: "ElList ix = map (\<lambda>p. (obj_id (data ix ! p), p)) [0..<n]"
    by (simp_all add: built_def n_def)
  have l0: "length h0 = Suc n" by (simp add: h0_def n_def)
  have ok0: "hp_ok (data ix) h0"
    using h by (auto simp: hp_ok_def h0_def x_def n_def nth_append less_Suc_eq)
  have same: "h0[n := x\<lparr>friends := []\<rparr>] = h0"
    by (simp add: h0_def x_def n_def)
  have run': "add ix1 n m = Inr ix'"
    using run by (simp add: ix1_def h0_def x_def n_def)
  have dr: "deref h0 n = Inr x"
    by (simp add: deref_def h0_def n_def)
  have ix1h: "ix1\<lparr>heap := h0\<rparr> = ix1" and hh: "heap ix1 = h0"
    by (simp_all add: ix1_def)
  have "add ix1 n m =
      (if ElList ix1 = [] then Inl (RuntimeError (''Bug: the list of nodes shouldn'' @ [CHR 0x27] @ ''t be empty!''))
       else case searchForIndexing ix1 (node_data x) [] m of
              Inl e \<Rightarrow> Inl e
            | Inr s \<Rightarrow> addCriticalSection (ix1\<lparr>heap := link_all (sfi_result s) n h0\<rparr>) n)"
    by (simp add: add_def hh dr same ix1h Let_def cong: if_cong sum.case_cong)
  with run' obtain s where
    sr: "searchForIndexing ix1 (node_data x) [] m = Inr s" and
    cr: "addCriticalSection (ix1\<lparr>heap := link_all (sfi_result s) n h0\<rparr>) n = Inr ix'"
    by (auto split: if_splits sum.splits)
  from searchForIndexing_inv [OF sr] have "\<forall>r \<in> set (sfi_result s). snd r < length h0"
    by (simp add: sfi_inv_def ix1_def)
  from link_all_ok [OF ok0 _ this, of n]
  have ok2: "hp_ok (data ix) (link_all (sfi_result s) n h0)"
    and l2: "length (link_all (sfi_result s) n h0) = Suc n"
    by (simp_all add: l0)
  from ok2 l2 have nd: "node_data (link_all (sfi_result s) n h0 ! n) = data ix ! n"
    by (simp add: hp_ok_def)
  have notin: "obj_id (data ix ! n) \<notin> fst ` set (ElList ix)"
  proof
    assume "obj_id (data ix ! n) \<in> fst ` set (ElList ix)"
    then obtain p where p: "p < n" "obj_id (data ix ! p) = obj_id (data ix ! n)"
      by (auto simp: el)
    with lt have pl: "p < length (map obj_id (data ix))" and nl: "n < length (map obj_id (data ix))"
      by (simp_all add: n_def)
    from nth_eq_iff_index_eq [OF d pl nl] p(2) pl nl have "p = n" by simp
    with p show False by simp
  qed
  from cr l2 nd notin have ix': "ix' = ix\<lparr>heap := link_all (sfi_result s) n h0,
      ElList := ElList ix @ [(obj_id (data ix ! n), n)]\<rparr>"
    by (auto simp: addCriticalSection_def deref_def ix1_def ElList_insert_def split: if_splits)
  have "built ix'"
    using ok2 l2 lt by (simp add: built_def ix' el n_def)
  with l2 show ?thesis by (simp add: ix' n_def)
qed

lemma add_all_built:
  "built ix \<Longrightarrow> distinct (map obj_id (data ix)) \<Longrightarrow>
   ids = [length (heap ix)..<length (data ix)] \<Longrightarrow> add_all ix ids = Inr ix' \<Longrightarrow>
   built ix' \<and> data ix' = data ix"
proof (induction ids arbitrary: ix)
  case Nil
  then show ?case by simp
next
  case (Cons i ids)
  from Cons.prems(3) [symmetric] have lt: "length (heap ix) < length (data ix)"
    and i: "i = length (heap ix)" and ids: "ids = [Suc (length (heap ix))..<length (data ix)]"
    by (auto simp: upt_eq_Cons_conv)
  from Cons.prems(4) obtain ix1 where
    a: "add (ix\<lparr>heap := heap ix @ [\<lparr>node_data = data ix ! length (heap ix),
                                     node_id = length (heap ix), friends = []\<rparr>]\<rparr>)
          (length (heap ix)) (length (data ix)) = Inr ix1" and
    r: "add_all ix1 ids = Inr ix'"
    by (auto simp: new_MSWNode_def i split: sum.splits)
  from add_built [OF Cons.prems(1,2) lt a]
  have b1: "built ix1" and d1: "data ix1 = data ix"
    and l1: "length (heap ix1) = Suc (length (heap ix))" by simp_all
  from Cons.IH [OF b1 _ _ r] Cons.prems(2) ids d1 l1 show ?case by simp
qed

lemma CreateIndex_built:
  assumes d: "distinct (map obj_id dat)"
    and th: "(case p_indexThreadQty prm of None \<Rightarrow> hc | Some v \<Rightarrow> v) \<le> 1"
    and run: "CreateIndex joined hc (SmallWorldRand_new mem pp sp dat) prm = Inr ix"
  shows "built ix \<and> data ix = dat"
proof (cases "dat = []")
  case True
  with run show ?thesis
    by (auto simp: CreateIndex_def SetQueryTimeParams_def getEmptyParams_def ToLower_def Let_def
          SmallWorldRand_new_def built_def hp_ok_def)
next
  case False
  define nn where "nn = (case p_NN prm of None \<Rightarrow> 10 | Some v \<Rightarrow> v)"
  define start :: "'a SmallWorldRand" where
    "start = \<lparr>space = sp, data = dat, PrintProgress = pp,
       use_proxy_dist = (case p_useProxyDist prm of None \<Rightarrow> False | Some v \<Rightarrow> v),
       NN = nn, efConstruction = (case p_efConstruction prm of None \<Rightarrow> nn | Some v \<Rightarrow> v),
       efSearch = nn,
       indexThreadQty = (case p_indexThreadQty prm of None \<Rightarrow> hc | Some v \<Rightarrow> v),
       searchAlgoType = kOld,
       ElList = [(obj_id (dat ! 0), 0)], pEntryPoint = Some 0,
       heap = [\<lparr>node_data = dat ! 0, node_id = 0, friends = []\<rparr>]\<rparr>"
  from run th False have r: "add_all start [1..<length dat] = Inr ix"
    by (simp add: CreateIndex_def SetQueryTimeParams_def getEmptyParams_def ToLower_def Let_def
          SmallWorldRand_new_def new_MSWNode_def addCriticalSection_def deref_def ElList_insert_def
          start_def nn_def split: if_splits cong: option.case_cong)
  from False have "built start"
    by (cases dat) (simp_all add: built_def hp_ok_def start_def)
  moreover have "distinct (map obj_id (data start))" using d by (simp add: start_def)
  moreover have "[1..<length dat] = [length (heap start)..<length (data start)]"
    by (simp add: start_def)
  ultimately have "built ix \<and> data ix = data start"
    using r by (rule add_all_built)
  then show ?thesis by (simp add: start_def)
qed

text \<open>
  In an index that \<^verbatim>\<open>CreateIndex\<close> has built with at most one thread, every internal
  id is below the size of the data: the test \<^verbatim>\<open>nodeId > maxInternalId\<close> of an insertion
  never fails there, with the size of the data for the bound or with one less.
\<close>

lemma built_ids: "built ix \<Longrightarrow> p < length (heap ix) \<Longrightarrow> node_id (heap ix ! p) < length (data ix)"
  by (simp add: built_def hp_ok_def)

lemma CreateIndex_ids:
  assumes "distinct (map obj_id dat)"
    and "(case p_indexThreadQty prm of None \<Rightarrow> hc | Some v \<Rightarrow> v) \<le> 1"
    and "CreateIndex joined hc (SmallWorldRand_new mem pp sp dat) prm = Inr ix"
    and "p < length (heap ix)"
  shows "node_id (heap ix ! p) < length dat"
  using CreateIndex_built [OF assms(1-3)] built_ids [OF _ assms(4)] by simp

text \<open>
  The round trip, when line 651 evaluates from left to right: for an index that
  \<^verbatim>\<open>CreateIndex\<close> has built with at most one thread over objects with pairwise
  different ids, \<^verbatim>\<open>SaveIndex\<close> succeeds, and \<^verbatim>\<open>LoadIndex\<close> of the saved file into a new
  index object over the same data succeeds and yields a node table of the same size whose
  nodes have the same internal id, the same object id and the same multiset of friend
  ids.  The line count in the last line of the file is the number of its lines.
\<close>

lemma save_load_left_to_right:
  assumes "distinct (map obj_id dat)"
    and "(case p_indexThreadQty prm of None \<Rightarrow> hc | Some v \<Rightarrow> v) \<le> 1"
    and "CreateIndex joined hc (SmallWorldRand_new mem pp sp dat) prm = Inr ix"
  shows "\<exists>fl ix'. SaveIndex ix = Inr fl \<and>
           LoadIndex LeftToRight (SmallWorldRand_new mem' pp' sp' dat) fl = Inr ix' \<and>
           last fl = FieldLine LINE_QTY (VNat (length fl)) \<and>
           length (ElList ix') = length (ElList ix) \<and>
           mset (map (node_view (heap ix')) (ElList ix'))
             = mset (map (node_view (heap ix)) (ElList ix))"
proof -
  from CreateIndex_built [OF assms] have b: "built ix" and dd: "data ix = dat" by simp_all
  from built_table_ok [OF b] assms(1) dd have t: "table_ok ix" by simp
  from roundtrip_table_ok [OF t, where mem = mem' and pp = pp' and sp = sp'] dd obtain fl ix' where
    s: "SaveIndex ix = Inr fl" and
    l: "LoadIndex LeftToRight (SmallWorldRand_new mem' pp' sp' dat) fl = Inr ix'" and
    n: "length (ElList ix') = length (ElList ix)" and
    v: "map (node_view (heap ix')) (ElList ix') = map (node_view (heap ix)) (ElList ix)"
    by auto
  from s SaveIndex_ok [OF t] have "fl = saved_file (NN ix) (map (entry_of (heap ix)) (ElList ix))"
    by simp
  then have c: "last fl = FieldLine LINE_QTY (VNat (length fl))"
    by (simp add: saved_file_def)
  from v have "mset (map (node_view (heap ix')) (ElList ix'))
             = mset (map (node_view (heap ix)) (ElList ix))" by simp
  with s l c n show ?thesis by blast
qed

section \<open>The entry point\<close>

text \<open>
  \<^verbatim>\<open>CreateIndex\<close> on non-empty data sets the entry point to the first node, and no
  insertion changes it afterwards.  \<^verbatim>\<open>LoadIndex\<close> returns the entry point as it found
  it, whatever the file.
\<close>

lemma addCriticalSection_pEntryPoint:
  "addCriticalSection ix p = Inr ix' \<Longrightarrow> pEntryPoint ix' = pEntryPoint ix"
  by (auto simp: addCriticalSection_def split: sum.splits)

lemma add_pEntryPoint: "add ix p m = Inr ix' \<Longrightarrow> pEntryPoint ix' = pEntryPoint ix"
  by (auto simp: add_def Let_def split: sum.splits if_splits dest!: addCriticalSection_pEntryPoint)

lemma add_all_pEntryPoint: "add_all ix ids = Inr ix' \<Longrightarrow> pEntryPoint ix' = pEntryPoint ix"
proof (induction ids arbitrary: ix)
  case Nil
  then show ?case by simp
next
  case (Cons i ids)
  then show ?case
    by (auto simp: new_MSWNode_def split: sum.splits dest!: add_pEntryPoint)
qed

lemma load_entry_pEntryPoint:
  "load_entry ord pass ts st = Inr st' \<Longrightarrow>
   pEntryPoint (ld_index st') = pEntryPoint (ld_index st)"
  by (auto simp: load_entry_def Let_def new_MSWNode_def
        split: list.splits token.splits if_splits option.splits sum.splits)

lemma load_lines_pEntryPoint:
  "load_lines ord pass ls st = Inr (st', rest) \<Longrightarrow>
   pEntryPoint (ld_index st') = pEntryPoint (ld_index st)"
proof (induction ord pass ls st rule: load_lines.induct)
  case (3 ord pass t ts rest st)
  then show ?case
    by (auto split: sum.splits dest!: load_entry_pEntryPoint)
qed auto

lemma load_pass_pEntryPoint:
  "load_pass ord pass f st = Inr st' \<Longrightarrow> pEntryPoint (fst st') = pEntryPoint (fst st)"
  by (auto simp: load_pass_def split: sum.splits prod.splits if_splits
        dest!: load_lines_pEntryPoint)

lemma LoadIndex_pEntryPoint:
  "LoadIndex ord ix f = Inr ix' \<Longrightarrow> pEntryPoint ix' = pEntryPoint ix"
  by (auto simp: LoadIndex_def split: sum.splits dest!: load_pass_pEntryPoint)

lemma ElList_insert_nonempty: "ElList_insert k p m \<noteq> []"
  by (cases m) (auto simp: ElList_insert_def)

lemma add_all_nonempty: "ElList ix \<noteq> [] \<Longrightarrow> add_all ix ids = Inr ix' \<Longrightarrow> ElList ix' \<noteq> []"
proof (induction ids arbitrary: ix)
  case Nil
  then show ?case by simp
next
  case (Cons i ids)
  from Cons.prems(2) obtain ix1 where
    a: "add (ix\<lparr>heap := heap ix @ [\<lparr>node_data = data ix ! i, node_id = i, friends = []\<rparr>]\<rparr>)
          (length (heap ix)) (length (data ix)) = Inr ix1" and
    r: "add_all ix1 ids = Inr ix'"
    by (auto simp: new_MSWNode_def split: sum.splits)
  from a have "ElList ix1 \<noteq> []"
    by (auto simp: add_def Let_def addCriticalSection_def ElList_insert_nonempty
          split: sum.splits if_splits)
  from Cons.IH [OF this r] show ?case .
qed

lemma CreateIndex_pEntryPoint:
  assumes "dat \<noteq> []"
    and "(case p_indexThreadQty prm of None \<Rightarrow> hc | Some v \<Rightarrow> v) \<le> 1"
    and "CreateIndex joined hc (SmallWorldRand_new mem pp sp dat) prm = Inr ix"
  shows "pEntryPoint ix = Some 0 \<and> ElList ix \<noteq> []"
proof -
  define nn where "nn = (case p_NN prm of None \<Rightarrow> 10 | Some v \<Rightarrow> v)"
  define start :: "'a SmallWorldRand" where
    "start = \<lparr>space = sp, data = dat, PrintProgress = pp,
       use_proxy_dist = (case p_useProxyDist prm of None \<Rightarrow> False | Some v \<Rightarrow> v),
       NN = nn, efConstruction = (case p_efConstruction prm of None \<Rightarrow> nn | Some v \<Rightarrow> v),
       efSearch = nn,
       indexThreadQty = (case p_indexThreadQty prm of None \<Rightarrow> hc | Some v \<Rightarrow> v),
       searchAlgoType = kOld,
       ElList = [(obj_id (dat ! 0), 0)], pEntryPoint = Some 0,
       heap = [\<lparr>node_data = dat ! 0, node_id = 0, friends = []\<rparr>]\<rparr>"
  from assms have r: "add_all start [1..<length dat] = Inr ix"
    by (simp add: CreateIndex_def SetQueryTimeParams_def getEmptyParams_def ToLower_def Let_def
          SmallWorldRand_new_def new_MSWNode_def addCriticalSection_def deref_def ElList_insert_def
          start_def nn_def split: if_splits cong: option.case_cong)
  have s: "pEntryPoint start = Some 0" "ElList start \<noteq> []"
    by (simp_all add: start_def)
  from add_all_pEntryPoint [OF r] add_all_nonempty [OF s(2) r] s(1) show ?thesis by simp
qed

section \<open>Loading when the pointer is released first\<close>

text \<open>
  With the arguments of line 651 evaluated from right to left, no entry line gets through
  the first pass: a load that completes has read a file without entries and has made no
  node.
\<close>

lemma load_entry_released: "load_entry RightToLeft 0 ts st \<noteq> Inr st'"
  by (auto simp: load_entry_def unique_ptr_arrow_def Let_def new_MSWNode_def
        split: list.splits token.splits if_splits)

lemma load_lines_released:
  assumes "load_lines RightToLeft 0 ls st = Inr (st', rest)"
  shows "ld_index st' = ld_index st \<and> (ls = [] \<or> (\<exists>r. ls = EntryLine [] # r))"
proof (cases ls)
  case Nil
  with assms show ?thesis by simp
next
  case (Cons l r)
  show ?thesis
  proof (cases l)
    case (FieldLine nm v)
    with Cons assms show ?thesis by simp
  next
    case (EntryLine ts)
    show ?thesis
    proof (cases ts)
      case Nil
      with Cons EntryLine assms show ?thesis by auto
    next
      case (Cons t ts')
      with \<open>ls = l # r\<close> EntryLine assms load_entry_released [of "t # ts'" st] show ?thesis
        by (auto split: sum.splits)
    qed
  qed
qed

lemma load_lines_no_entry:
  "ls = [] \<or> (\<exists>r. ls = EntryLine [] # r) \<Longrightarrow> load_lines ord pass ls st = Inr (st', rest) \<Longrightarrow>
   ld_index st' = ld_index st"
  by auto

lemma LoadIndex_released:
  assumes "LoadIndex RightToLeft ix fl = Inr ix'"
  shows "heap ix' = heap ix \<and> ElList ix' = ElList ix"
proof -
  from assms obtain st0 st1 where
    p0: "load_pass RightToLeft 0 fl (ix, replicate (length (data ix)) None) = Inr st0" and
    p1: "load_pass RightToLeft 1 fl st0 = Inr st1" and r: "ix' = fst st1"
    by (auto simp: LoadIndex_def split: sum.splits)
  from p0 obtain methDesc f1 nn f2 s0 f3 where
    h1: "ReadField_str METHOD_DESC fl = Inr (methDesc, f1)" and
    h2: "ReadField_nat ''NN'' f1 = Inr (nn, f2)" and
    l0: "load_lines RightToLeft 0 f2
           \<lparr>ld_index = ix\<lparr>NN := nn\<rparr>, ld_ptrMapper = replicate (length (data ix)) None,
            ld_lineNum = 3\<rparr> = Inr (s0, f3)" and
    s0: "fst st0 = ld_index s0"
    by (auto simp: load_pass_def split: sum.splits prod.splits if_splits)
  from load_lines_released [OF l0]
  have i0: "ld_index s0 = ix\<lparr>NN := nn\<rparr>" and ne: "f2 = [] \<or> (\<exists>r. f2 = EntryLine [] # r)"
    by simp_all
  from p1 h1 h2 obtain s1 f3' where
    l1: "load_lines RightToLeft 1 f2
           \<lparr>ld_index = (fst st0)\<lparr>NN := nn\<rparr>, ld_ptrMapper = snd st0, ld_lineNum = 3\<rparr>
         = Inr (s1, f3')" and
    s1: "fst st1 = ld_index s1"
    by (auto simp: load_pass_def split: sum.splits prod.splits if_splits)
  from load_lines_no_entry [OF ne l1] have "ld_index s1 = (fst st0)\<lparr>NN := nn\<rparr>" by simp
  with r s1 s0 i0 show ?thesis by simp
qed

section \<open>The bound of the indexing search\<close>





section \<open>A small index\<close>

text \<open>
  Three objects on a line, with the distance of their ids: the index that
  \<^verbatim>\<open>CreateIndex\<close> builds over them with \<open>NN = efConstruction = 2\<close> in one thread, and
  the file that \<^verbatim>\<open>SaveIndex\<close> writes for it.
\<close>

definition ex_space :: "int Space" where
  "ex_space = \<lparr>IndexTimeDistance = (\<lambda>a b. \<bar>obj_id a - obj_id b\<bar>),
                ProxyDistance = (\<lambda>a b. \<bar>obj_id a - obj_id b\<bar>)\<rparr>"

definition ex_obj :: "int \<Rightarrow> Object" where
  "ex_obj i = \<lparr>obj_id = i, obj_data = []\<rparr>"

definition ex_params :: IndexParams where
  "ex_params = \<lparr>p_NN = Some 2, p_efConstruction = Some 2, p_indexThreadQty = Some 1,
                 p_useProxyDist = None\<rparr>"

definition ex_data :: "Object list" where
  "ex_data = [ex_obj 10, ex_obj 20, ex_obj 30]"

definition ex_query :: "int \<Rightarrow> nat \<Rightarrow> int KNNQuery" where
  "ex_query x k = \<lparr>GetK = k, DistanceObjLeft = (\<lambda>a. \<bar>obj_id a - x\<bar>), offered = []\<rparr>"

definition ex_index :: "int SmallWorldRand" where
  "ex_index =
     \<lparr>space = ex_space, data = ex_data, PrintProgress = False, use_proxy_dist = False,
      NN = 2, efConstruction = 2, efSearch = 2, indexThreadQty = 1, searchAlgoType = kOld,
      ElList = [(10, 0), (20, 1), (30, 2)],
      pEntryPoint = Some 0,
      heap = [\<lparr>node_data = ex_obj 10, node_id = 0, friends = [1, 2]\<rparr>,
              \<lparr>node_data = ex_obj 20, node_id = 1, friends = [0, 2]\<rparr>,
              \<lparr>node_data = ex_obj 30, node_id = 2, friends = [0, 1]\<rparr>]\<rparr>"

definition ex_file :: "line list" where
  "ex_file =
     [FieldLine METHOD_DESC (VStr StrDesc), FieldLine ''NN'' (VNat 2),
      EntryLine [TInt 0, TChar CHR '':'', TInt 10, TChar CHR '':'', TInt 1, TInt 2],
      EntryLine [TInt 1, TChar CHR '':'', TInt 20, TChar CHR '':'', TInt 0, TInt 2],
      EntryLine [TInt 2, TChar CHR '':'', TInt 30, TChar CHR '':'', TInt 0, TInt 1],
      EntryLine [], FieldLine LINE_QTY (VNat 7)]"

text \<open>
  The members of an index object that was constructed in zeroed memory, and of one whose
  memory held other values; \<open>7\<close> is the address of no node.
\<close>

definition ex_zeroed :: members where
  "ex_zeroed = \<lparr>mem_NN = 0, mem_efConstruction = 0, mem_efSearch = 0, mem_indexThreadQty = 0,
                 mem_searchAlgoType = kOld, mem_pEntryPoint = None\<rparr>"

definition ex_stale :: members where
  "ex_stale = \<lparr>mem_NN = 5, mem_efConstruction = 3, mem_efSearch = 9, mem_indexThreadQty = 8,
                mem_searchAlgoType = kV1Merge, mem_pEntryPoint = Some 7\<rparr>"

text \<open>
  The index that \<^verbatim>\<open>LoadIndex\<close> makes of that file in a new index object, when line 651
  evaluates from left to right: the members that it does not assign are those of the new
  object.  \<open>ex_ready\<close> is that index after \<^verbatim>\<open>SetQueryTimeParams\<close> without parameters.
\<close>

definition ex_loaded :: "members \<Rightarrow> int SmallWorldRand" where
  "ex_loaded mem =
     (SmallWorldRand_new mem False ex_space ex_data)
       \<lparr>NN := 2,
        ElList := [(10, 0), (20, 1), (30, 2)],
        heap := [\<lparr>node_data = ex_obj 10, node_id = 0, friends = [1, 2]\<rparr>,
                 \<lparr>node_data = ex_obj 20, node_id = 1, friends = [0, 2]\<rparr>,
                 \<lparr>node_data = ex_obj 30, node_id = 2, friends = [0, 1]\<rparr>]\<rparr>"

definition ex_ready :: "members \<Rightarrow> int SmallWorldRand" where
  "ex_ready mem = (ex_loaded mem)\<lparr>efSearch := 2, searchAlgoType := kOld\<rparr>"





text \<open>
  The state of \<^verbatim>\<open>SearchV1Merge\<close> on the index \<open>ex_index\<close> at the first and at the second
  start of the loop, for the query point \<open>24\<close> and \<open>k = 2\<close>.
\<close>

definition ex_v1_start :: "int v1_state" where
  "ex_v1_start =
     \<lparr>v1_visited = [True, False, False],
      v1_sortedArr = \<lparr>items = [\<lparr>item_key = 14, item_used = False, item_data = 0\<rparr>], max_elem = 2\<rparr>,
      v1_currElem = 0, v1_itemBuff = [], v1_query = ex_query 24 2,
      v1_evaluated = [0], v1_iters = 0\<rparr>"

definition ex_v1_next :: "int v1_state" where
  "ex_v1_next =
     \<lparr>v1_visited = [True, True, True],
      v1_sortedArr = \<lparr>items = [\<lparr>item_key = 4, item_used = False, item_data = 1\<rparr>,
                               \<lparr>item_key = 6, item_used = False, item_data = 2\<rparr>], max_elem = 2\<rparr>,
      v1_currElem = 0,
      v1_itemBuff = [\<lparr>item_key = 4, item_used = False, item_data = 1\<rparr>,
                     \<lparr>item_key = 6, item_used = False, item_data = 2\<rparr>],
      v1_query = ex_query 24 2,
      v1_evaluated = [0, 1, 2], v1_iters = 1\<rparr>"

lemmas build_simps = SetQueryTimeParams_def getEmptyParams_def ToLower_def SmallWorldRand_new_def
  CreateIndex_def ex_params_def ex_data_def new_MSWNode_def addCriticalSection_def deref_def
  ElList_insert_def add_def searchForIndexing_def index_dist_def ex_space_def trim_def
  sfi_loop.simps admits_def link_def addFriend_def Let_def ex_obj_def upt_rec

lemmas load_simps = LoadIndex_def load_pass_def ReadField_nat_def ReadField_str_def ex_file_def
  load_entry_def unique_ptr_arrow_def deref_def METHOD_DESC_def LINE_QTY_def StrDesc_def
  SmallWorldRand_new_def ex_data_def new_MSWNode_def ElList_insert_def ex_obj_def addFriend_def
  Let_def

lemma ex_build:
  "CreateIndex joined 4 (SmallWorldRand_new mem False ex_space ex_data) ex_params = Inr ex_index"
  by (simp add: build_simps ex_index_def)

lemma ex_save: "SaveIndex ex_index = Inr ex_file"
  by (simp add: SaveIndex_def ex_index_def ex_file_def deref_def ex_obj_def ex_data_def)

lemma ex_load:
  "LoadIndex LeftToRight (SmallWorldRand_new mem False ex_space ex_data) ex_file
     = Inr (ex_loaded mem)"
  by (simp add: load_simps ex_loaded_def)

lemma ex_load_released:
  "LoadIndex RightToLeft (SmallWorldRand_new mem pp sp ex_data) ex_file
     = Inl (UndefinedBehaviour ''operator-> of an empty unique_ptr'')"
  by (simp add: load_simps)



lemmas query_simps = SearchOld_def SearchOld_body_def so_loop.simps SearchV1Merge_def
  SearchV1Merge_body_def v1_init_def v1_loop.simps v1_body_def v1_insert_def v1_skip_used.simps
  push_or_replace_non_empty_exp_def push_unsorted_grow_def SortArrBI_new_def QueueItem_def
  top_key_def below_top_def MERGE_BUFFER_ALGO_SWITCH_THRESHOLD_def CheckAndAddToResult_def
  ex_index_def ex_query_def ex_obj_def deref_def admits_def trim_def Let_def


lemma ex_SearchOld_body:
  "\<exists>s. SearchOld_body ex_index (ex_query 24 2) = Inr s \<and>
       so_evaluated s = [0, 1, 2] \<and> so_iters s = 3"
  by (simp add: query_simps)

lemma ex_SearchV1Merge:
  "SearchV1Merge ex_index (ex_query 24 2) =
     Inr ((ex_query 24 2)\<lparr>offered := [(4, ex_obj 20), (6, ex_obj 30)]\<rparr>)"
  by (simp add: query_simps)

lemma ex_SearchV1Merge_body:
  "\<exists>s. SearchV1Merge_body ex_index (ex_query 24 2) = Inr s \<and>
       v1_evaluated s = [0, 1, 2] \<and> v1_iters s = 3"
  by (simp add: query_simps)

lemma ex_searchForIndexing:
  "\<exists>s. searchForIndexing ex_index (ex_obj 24) [] 3 = Inr s \<and>
       sfi_evaluated s = [0, 1, 2] \<and> sfi_iters s = 3"
  by (simp add: searchForIndexing_def index_dist_def ex_space_def sfi_loop.simps query_simps)

lemma ex_v1_init: "v1_init ex_index (ex_query 24 2) = Inr ex_v1_start"
  by (simp add: query_simps ex_v1_start_def)

lemma ex_v1_step:
  "v1_body (heap ex_index) (efSearch ex_index) (length (ElList ex_index)) ex_v1_start = Inr ex_v1_next"
  by (simp add: query_simps ex_v1_start_def ex_v1_next_def)

section \<open>Claims\<close>

text \<open>
  C1, as far as the code goes.  The claim: saving an index and loading the saved file
  into a new index object over the same data succeeds and yields the same nodes.  At
  line 651 the loader reads the object id through \<open>node\<close> in one argument of
  \<^verbatim>\<open>make_pair\<close> and empties \<open>node\<close> with \<^verbatim>\<open>release()\<close> in the other.  For the index that
  \<^verbatim>\<open>CreateIndex\<close> builds over the three objects, \<^verbatim>\<open>SaveIndex\<close> writes a file whose last
  line counts its lines; with the arguments evaluated from right to left, \<^verbatim>\<open>LoadIndex\<close>
  of that file goes through an empty \<^verbatim>\<open>unique_ptr\<close> at the first entry (and so at the
  first entry of every file, \<open>load_entry_released\<close>); evaluated from left to right, it
  returns an index with the nodes that were saved (\<open>save_load_left_to_right\<close> for every
  index built in one thread).
\<close>

theorem C1_LoadIndex_reads_through_released_pointer:
  "CreateIndex joined 4 (SmallWorldRand_new mem False ex_space ex_data) ex_params = Inr ex_index \<and>
   SaveIndex ex_index = Inr ex_file \<and>
   last ex_file = FieldLine LINE_QTY (VNat (length ex_file)) \<and>
   LoadIndex RightToLeft (SmallWorldRand_new mem' pp ex_space ex_data) ex_file
     = Inl (UndefinedBehaviour ''operator-> of an empty unique_ptr'') \<and>
   LoadIndex LeftToRight (SmallWorldRand_new mem' False ex_space ex_data) ex_file
     = Inr (ex_loaded mem') \<and>
   map (node_view (heap (ex_loaded mem'))) (ElList (ex_loaded mem'))
     = map (node_view (heap ex_index)) (ElList ex_index)"
proof -
  have "last ex_file = FieldLine LINE_QTY (VNat (length ex_file))"
    by (simp add: ex_file_def)
  moreover have "map (node_view (heap (ex_loaded mem'))) (ElList (ex_loaded mem'))
      = map (node_view (heap ex_index)) (ElList ex_index)"
    by (simp add: ex_loaded_def ex_index_def node_view_def)
  ultimately show ?thesis
    using ex_build [of joined mem] ex_save ex_load [of mem'] ex_load_released [of mem' pp ex_space]
    by simp
qed

text \<open>
  C2, as far as the code goes.  The claim: after every completed operation that leaves
  the node table non-empty, \<^verbatim>\<open>LoadIndex\<close> of a valid file among them, the entry point is
  non-null.  \<^verbatim>\<open>CreateIndex\<close> sets the entry point and insertions keep it
  (\<open>CreateIndex_pEntryPoint\<close>, \<open>add_pEntryPoint\<close>); \<^verbatim>\<open>LoadIndex\<close> never assigns it
  (\<open>LoadIndex_pEntryPoint\<close>).  Where the load of the file saved from the small index
  completes, with line 651 evaluated from left to right, the node table has three
  entries and the entry point is what the memory of the new object held, for the
  constructor does not assign it either.  If that was null, both searches stop at their
  check of the entry point; if it was another value, both searches follow a pointer to
  no node.
\<close>

theorem C2_LoadIndex_never_assigns_entry_point:
  "CreateIndex joined 4 (SmallWorldRand_new mem False ex_space ex_data) ex_params = Inr ex_index \<and>
   pEntryPoint ex_index = Some 0 \<and>
   SaveIndex ex_index = Inr ex_file \<and>
   LoadIndex LeftToRight (SmallWorldRand_new mem False ex_space ex_data) ex_file
     = Inr (ex_loaded mem) \<and>
   SetQueryTimeParams (ex_loaded mem) getEmptyParams = Inr (ex_ready mem) \<and>
   ElList (ex_ready mem) = [(10, 0), (20, 1), (30, 2)] \<and>
   pEntryPoint (ex_ready mem) = mem_pEntryPoint mem \<and>
   SearchOld (ex_ready ex_zeroed) (ex_query 24 2)
     = Inl (CheckFailed ''Bug: there is not entry point set!'') \<and>
   SearchV1Merge (ex_ready ex_zeroed) (ex_query 24 2)
     = Inl (CheckFailed ''Bug: there is not entry point set!'') \<and>
   SearchOld (ex_ready ex_stale) (ex_query 24 2)
     = Inl (UndefinedBehaviour ''pointer to no node'') \<and>
   SearchV1Merge (ex_ready ex_stale) (ex_query 24 2)
     = Inl (UndefinedBehaviour ''pointer to no node'')"
proof -
  have "SetQueryTimeParams (ex_loaded mem) getEmptyParams = Inr (ex_ready mem)"
    by (simp add: SetQueryTimeParams_def getEmptyParams_def ToLower_def ex_loaded_def
          ex_ready_def)
  moreover have "SearchOld (ex_ready ex_zeroed) (ex_query 24 2)
      = Inl (CheckFailed ''Bug: there is not entry point set!'')"
    by (simp add: SearchOld_def SearchOld_body_def ex_ready_def ex_loaded_def ex_zeroed_def
          SmallWorldRand_new_def)
  moreover have "SearchV1Merge (ex_ready ex_zeroed) (ex_query 24 2)
      = Inl (CheckFailed ''Bug: there is not entry point set!'')"
    by (simp add: SearchV1Merge_def SearchV1Merge_body_def v1_init_def ex_ready_def
          ex_loaded_def ex_zeroed_def SmallWorldRand_new_def)
  moreover have "SearchOld (ex_ready ex_stale) (ex_query 24 2)
      = Inl (UndefinedBehaviour ''pointer to no node'')"
    by (simp add: SearchOld_def SearchOld_body_def ex_ready_def ex_loaded_def ex_stale_def
          SmallWorldRand_new_def deref_def)
  moreover have "SearchV1Merge (ex_ready ex_stale) (ex_query 24 2)
      = Inl (UndefinedBehaviour ''pointer to no node'')"
    by (simp add: SearchV1Merge_def SearchV1Merge_body_def v1_init_def ex_ready_def
          ex_loaded_def ex_stale_def SmallWorldRand_new_def deref_def)
  moreover have "ElList (ex_ready mem) = [(10, 0), (20, 1), (30, 2)]"
    and "pEntryPoint (ex_ready mem) = mem_pEntryPoint mem"
    and "pEntryPoint ex_index = Some 0"
    by (simp_all add: ex_ready_def ex_loaded_def SmallWorldRand_new_def ex_index_def)
  ultimately show ?thesis
    using ex_build [of joined mem] ex_save ex_load [of mem] by simp
qed




text \<open>
  C4.  In the V1Merge search, at the start of every pass through the \<^verbatim>\<open>while\<close> loop (the
  states \<open>v1_reach\<close>: the state before the loop, and the state after each pass that
  began with the loop condition true) the cursor lies inside the buffer or at its end,
  every entry before the cursor is used, and the entry at the cursor, if there is one,
  is un-used: the cursor is at the first un-used entry or past the last entry.  So the
  assertion \<^verbatim>\<open>CHECK(!e.used)\<close> never fails, whatever else the search does.
\<close>

theorem C4_cursor_at_first_unused:
  "(v1_reach ix q s \<longrightarrow>
      v1_currElem s \<le> length (items (v1_sortedArr s)) \<and>
      (\<forall>i<v1_currElem s. item_used (items (v1_sortedArr s) ! i)) \<and>
      (v1_currElem s < length (items (v1_sortedArr s)) \<longrightarrow>
         \<not> item_used (items (v1_sortedArr s) ! v1_currElem s))) \<and>
   SearchV1Merge_body ix q \<noteq> Inl (CheckFailed ''!e.used'') \<and>
   SearchV1Merge ix q \<noteq> Inl (CheckFailed ''!e.used'')"
proof -
  have a: "SearchV1Merge_body ix q \<noteq> Inl (CheckFailed ''!e.used'')"
  proof (cases "v1_init ix q")
    case (Inl e)
    then have "e \<noteq> CheckFailed ''!e.used''"
      by (auto simp: v1_init_def Let_def deref_def split: if_splits option.splits)
    with Inl show ?thesis by (simp add: SearchV1Merge_body_def)
  next
    case (Inr s0)
    from v1_init_inv [OF Inr] have "v1_inv (heap ix) q s0" by simp
    from v1_loop_no_used_check [OF this] Inr show ?thesis
      by (simp add: SearchV1Merge_body_def)
  qed
  then have b: "SearchV1Merge ix q \<noteq> Inl (CheckFailed ''!e.used'')"
    using v1_emit_no_check by (auto simp: SearchV1Merge_def split: sum.splits)
  show ?thesis
  proof (intro conjI impI a b)
    assume r: "v1_reach ix q s"
    from v1_reach_inv [OF r]
    show "v1_currElem s \<le> length (items (v1_sortedArr s))"
      and "\<forall>i<v1_currElem s. item_used (items (v1_sortedArr s) ! i)"
      by (simp_all add: v1_inv_def buf_ok_def)
  next
    assume r: "v1_reach ix q s" and "v1_currElem s < length (items (v1_sortedArr s))"
    with v1_reach_inv [OF r]
    show "\<not> item_used (items (v1_sortedArr s) ! v1_currElem s)"
      by (simp add: v1_inv_def)
  qed
qed

theorem C4_cursor_at_first_unused_witness:
  "v1_reach ex_index (ex_query 24 2) ex_v1_next \<and>
   v1_currElem ex_v1_next = 0 \<and>
   v1_currElem ex_v1_next < length (items (v1_sortedArr ex_v1_next)) \<and>
   \<not> item_used (items (v1_sortedArr ex_v1_next) ! v1_currElem ex_v1_next)"
proof -
  have "v1_reach ex_index (ex_query 24 2) ex_v1_start"
    by (rule v1_reach_init) (rule ex_v1_init)
  then have r: "v1_reach ex_index (ex_query 24 2) ex_v1_next"
    by (rule v1_reach_step) (simp_all add: ex_v1_step, simp add: ex_v1_start_def ex_index_def)
  have "v1_currElem ex_v1_next < length (items (v1_sortedArr ex_v1_next))"
    by (simp add: ex_v1_next_def)
  with C4_cursor_at_first_unused [of ex_index "ex_query 24 2" ex_v1_next] r
  show ?thesis by (simp add: ex_v1_next_def)
qed



text \<open>
  C6.  When a V1Merge query with parameter \<open>k\<close> on a non-empty index returns, the offers
  it made to the result sink are exactly the first \<open>min k size\<close> entries of the buffer as
  it is at the end of the loop, in the order of the buffer, and the keys of the buffer
  are in ascending order.
\<close>

theorem C6_V1Merge_emits_sorted_prefix:
  assumes "ElList ix \<noteq> []" and "SearchV1Merge ix q = Inr q'"
  shows "\<exists>s. SearchV1Merge_body ix q = Inr s \<and>
           offered q' = offered q @
             map (\<lambda>e. (item_key e, node_data (heap ix ! item_data e)))
               (take (min (GetK q) (length (items (v1_sortedArr s)))) (items (v1_sortedArr s))) \<and>
           sorted (map item_key (items (v1_sortedArr s)))"
proof -
  from assms obtain s where b: "SearchV1Merge_body ix q = Inr s"
    and e: "v1_emit (heap ix) (take (GetK q) (items (v1_sortedArr s))) (v1_query s) = Inr q'"
    by (auto simp: SearchV1Merge_def split: sum.splits)
  from SearchV1Merge_body_inv [OF b] have q: "v1_query s = q"
    and so: "sorted (map item_key (items (v1_sortedArr s)))"
    by (simp_all add: v1_inv_def buf_ok_def)
  have "take (min (GetK q) (length (items (v1_sortedArr s)))) (items (v1_sortedArr s))
          = take (GetK q) (items (v1_sortedArr s))"
    by (cases "GetK q \<le> length (items (v1_sortedArr s))") (simp_all add: min_def)
  with v1_emit_offers [OF e] q b so show ?thesis by auto
qed

theorem C6_V1Merge_emits_sorted_prefix_witness:
  "ElList ex_index \<noteq> [] \<and>
   SearchV1Merge ex_index (ex_query 24 2) =
     Inr ((ex_query 24 2)\<lparr>offered := [(4, ex_obj 20), (6, ex_obj 30)]\<rparr>) \<and>
   (\<exists>s. SearchV1Merge_body ex_index (ex_query 24 2) = Inr s \<and>
         sorted (map item_key (items (v1_sortedArr s))))"
proof -
  have a: "ElList ex_index \<noteq> []" by (simp add: ex_index_def)
  from C6_V1Merge_emits_sorted_prefix [OF a ex_SearchV1Merge] a ex_SearchV1Merge
  show ?thesis by auto
qed

text \<open>
  C8.  Building an index over an empty data sequence returns normally and creates no
  node; a kNN query on that index, for every \<open>k\<close> and under either algorithm, whatever
  query-time parameters were set, returns without an error and without an offer to the
  result sink, so the result stays empty.
\<close>

theorem C8_empty_build_and_query:
  "\<exists>ix'. CreateIndex joined hc (SmallWorldRand_new mem pp sp []) prm = Inr ix' \<and>
         heap ix' = [] \<and> ElList ix' = [] \<and>
         SearchOld ix' q = Inr q \<and> SearchV1Merge ix' q = Inr q \<and> Search ix' q = Inr q \<and>
         (\<forall>qp ix''. SetQueryTimeParams ix' qp = Inr ix'' \<longrightarrow> Search ix'' q = Inr q)"
  by (auto simp add: CreateIndex_def SmallWorldRand_new_def SetQueryTimeParams_def
        getEmptyParams_def ToLower_def Let_def SearchOld_def SearchV1Merge_def Search_def
        split: if_splits)

theorem C8_empty_build_and_query_witness:
  "\<exists>ix' ix''. CreateIndex Inr 4 (SmallWorldRand_new ex_zeroed False ex_space []) ex_params = Inr ix' \<and>
     SetQueryTimeParams ix' \<lparr>p_efSearch = Some 5, p_algoType = Some ''v1merge''\<rparr> = Inr ix'' \<and>
     searchAlgoType ix'' = kV1Merge \<and>
     Search ix'' (ex_query 24 5) = Inr (ex_query 24 5)"
proof -
  from C8_empty_build_and_query [of Inr 4 ex_zeroed False ex_space ex_params "ex_query 24 5"]
  obtain ix' where
    b: "CreateIndex Inr 4 (SmallWorldRand_new ex_zeroed False ex_space []) ex_params = Inr ix'" and
    q: "\<forall>qp ix''. SetQueryTimeParams ix' qp = Inr ix'' \<longrightarrow>
          Search ix'' (ex_query 24 5) = Inr (ex_query 24 5)"
    by blast
  have s: "SetQueryTimeParams ix' \<lparr>p_efSearch = Some 5, p_algoType = Some ''v1merge''\<rparr>
      = Inr (ix'\<lparr>efSearch := 5, searchAlgoType := kV1Merge\<rparr>)"
    by (simp add: SetQueryTimeParams_def ToLower_def)
  with q have "Search (ix'\<lparr>efSearch := 5, searchAlgoType := kV1Merge\<rparr>) (ex_query 24 5)
      = Inr (ex_query 24 5)"
    by blast
  with b s show ?thesis by simp
qed

text \<open>
  C9.  The three searches end on every graph and query: their loops are total functions,
  defined by recursion along the pair (unvisited bits, size of the frontier or number of
  un-used buffer entries), which every pass decreases.  In numbers: the nodes whose
  distance was computed have pairwise different internal ids, so they are at most as
  many as the bits of the visited bitset, and the passes through the \<^verbatim>\<open>while\<close> loop are
  at most as many as these nodes, since each pass consumes a frontier entry that was
  entered once, when its node was first seen.
\<close>

theorem C9_searches_bounded:
  "(searchForIndexing ix queryObj [] maxInternalId = Inr s1 \<longrightarrow>
      sfi_iters s1 \<le> length (sfi_evaluated s1) \<and>
      length (sfi_evaluated s1) \<le> maxInternalId + 1 \<and>
      distinct (map (\<lambda>p. node_id (heap ix ! p)) (sfi_evaluated s1))) \<and>
   (SearchOld_body ix q = Inr s2 \<longrightarrow>
      so_iters s2 \<le> length (so_evaluated s2) \<and>
      length (so_evaluated s2) \<le> length (ElList ix) \<and>
      distinct (map (\<lambda>p. node_id (heap ix ! p)) (so_evaluated s2))) \<and>
   (SearchV1Merge_body ix q = Inr s3 \<longrightarrow>
      v1_iters s3 \<le> length (v1_evaluated s3) \<and>
      length (v1_evaluated s3) \<le> length (ElList ix) \<and>
      distinct (map (\<lambda>p. node_id (heap ix ! p)) (v1_evaluated s3)))"
proof (intro conjI impI)
  assume r: "searchForIndexing ix queryObj [] maxInternalId = Inr s1"
  then have i: "sfi_inv (heap ix) s1" and l: "length (sfi_visited s1) = maxInternalId + 1"
    using searchForIndexing_inv [of ix queryObj "[]" maxInternalId s1] by simp_all
  from i show "sfi_iters s1 \<le> length (sfi_evaluated s1)" by (simp add: sfi_inv_def)
  from i have m: "marked (heap ix) (sfi_visited s1) (sfi_evaluated s1)" by (simp add: sfi_inv_def)
  from marked_length [OF m] l show "length (sfi_evaluated s1) \<le> maxInternalId + 1" by simp
  from m show "distinct (map (\<lambda>p. node_id (heap ix ! p)) (sfi_evaluated s1))"
    by (simp add: marked_def)
next
  assume r: "SearchOld_body ix q = Inr s2"
  from SearchOld_body_inv [OF r] have i: "so_inv (heap ix) q s2"
    and l: "length (so_visited s2) = length (ElList ix)" by simp_all
  from i show "so_iters s2 \<le> length (so_evaluated s2)" by (simp add: so_inv_def)
  from i have m: "marked (heap ix) (so_visited s2) (so_evaluated s2)" by (simp add: so_inv_def)
  from marked_length [OF m] l show "length (so_evaluated s2) \<le> length (ElList ix)" by simp
  from m show "distinct (map (\<lambda>p. node_id (heap ix ! p)) (so_evaluated s2))"
    by (simp add: marked_def)
next
  assume r: "SearchV1Merge_body ix q = Inr s3"
  from SearchV1Merge_body_inv [OF r] have i: "v1_inv (heap ix) q s3"
    and l: "length (v1_visited s3) = length (ElList ix)" by simp_all
  from i show "v1_iters s3 \<le> length (v1_evaluated s3)" by (simp add: v1_inv_def)
  from i have m: "marked (heap ix) (v1_visited s3) (v1_evaluated s3)" by (simp add: v1_inv_def)
  from marked_length [OF m] l show "length (v1_evaluated s3) \<le> length (ElList ix)" by simp
  from m show "distinct (map (\<lambda>p. node_id (heap ix ! p)) (v1_evaluated s3))"
    by (simp add: marked_def)
qed

theorem C9_searches_bounded_witness:
  "\<exists>s1 s2 s3.
     searchForIndexing ex_index (ex_obj 24) [] 3 = Inr s1 \<and>
     sfi_iters s1 = 3 \<and> sfi_evaluated s1 = [0, 1, 2] \<and> length (sfi_evaluated s1) \<le> 3 + 1 \<and>
     SearchOld_body ex_index (ex_query 24 2) = Inr s2 \<and>
     so_iters s2 = 3 \<and> so_evaluated s2 = [0, 1, 2] \<and>
     length (so_evaluated s2) \<le> length (ElList ex_index) \<and>
     SearchV1Merge_body ex_index (ex_query 24 2) = Inr s3 \<and>
     v1_iters s3 = 3 \<and> v1_evaluated s3 = [0, 1, 2] \<and>
     length (v1_evaluated s3) \<le> length (ElList ex_index)"
proof -
  from ex_searchForIndexing obtain s1 where
    s1: "searchForIndexing ex_index (ex_obj 24) [] 3 = Inr s1"
        "sfi_evaluated s1 = [0, 1, 2]" "sfi_iters s1 = 3" by blast
  from ex_SearchOld_body obtain s2 where
    s2: "SearchOld_body ex_index (ex_query 24 2) = Inr s2"
        "so_evaluated s2 = [0, 1, 2]" "so_iters s2 = 3" by blast
  from ex_SearchV1Merge_body obtain s3 where
    s3: "SearchV1Merge_body ex_index (ex_query 24 2) = Inr s3"
        "v1_evaluated s3 = [0, 1, 2]" "v1_iters s3 = 3" by blast
  from C9_searches_bounded [of ex_index "ex_obj 24" 3 s1 "ex_query 24 2" s2 s3] s1 s2 s3
  show ?thesis by (intro exI [of _ s1] exI [of _ s2] exI [of _ s3]) simp
qed

text \<open>
  C10.  With \<open>efSearch = 0\<close>, a kNN query against a non-empty index fails in both
  algorithms with the error \<open>efSearch should be > 0\<close> and returns no result; against an
  empty index the same query returns, unchanged and without an error.
\<close>

theorem C10_efSearch_zero:
  "(ElList ix \<noteq> [] \<and> efSearch ix = 0 \<longrightarrow>
      SearchV1Merge ix q = Inl (CheckFailed ''efSearch should be > 0'') \<and>
      SearchOld ix q = Inl (CheckFailed ''efSearch should be > 0'') \<and>
      Search ix q = Inl (CheckFailed ''efSearch should be > 0'')) \<and>
   (ElList ix = [] \<longrightarrow>
      SearchV1Merge ix q = Inr q \<and> SearchOld ix q = Inr q \<and> Search ix q = Inr q)"
  by (simp add: SearchV1Merge_def SearchOld_def Search_def SearchV1Merge_body_def v1_init_def
        SearchOld_body_def)

theorem C10_efSearch_zero_witness:
  "ElList (ex_index\<lparr>efSearch := 0\<rparr>) \<noteq> [] \<and> efSearch (ex_index\<lparr>efSearch := 0\<rparr>) = 0 \<and>
   SearchV1Merge (ex_index\<lparr>efSearch := 0\<rparr>) (ex_query 24 2)
     = Inl (CheckFailed ''efSearch should be > 0'') \<and>
   SearchOld (ex_index\<lparr>efSearch := 0\<rparr>) (ex_query 24 2)
     = Inl (CheckFailed ''efSearch should be > 0'') \<and>
   ElList (SmallWorldRand_new ex_zeroed False ex_space []) = [] \<and>
   SearchV1Merge (SmallWorldRand_new ex_zeroed False ex_space []) (ex_query 24 2) = Inr (ex_query 24 2) \<and>
   SearchOld (SmallWorldRand_new ex_zeroed False ex_space []) (ex_query 24 2) = Inr (ex_query 24 2)"
  using C10_efSearch_zero [of "ex_index\<lparr>efSearch := 0\<rparr>" "ex_query 24 2"]
        C10_efSearch_zero [of "SmallWorldRand_new ex_zeroed False ex_space []" "ex_query 24 2"]
  by (simp add: ex_index_def SmallWorldRand_new_def)

end
